theory Spec2Isabelle
  imports Main "HOL-Library.Multiset"
begin

section \<open>JavaScript values and the object heap\<close>

text \<open>
  The clone engine (\<^verbatim>\<open>src/deep-copy.ts\<close>) and the filter
  (\<^verbatim>\<open>src/distinct-until-changed-immutable.ts\<close>) work on JavaScript values.
  A value is a primitive, a function, or a reference to an object of the heap. Object
  identity (\<^verbatim>\<open>===\<close> on objects) is equality of addresses.

  Numbers carry an integer: neither file ever computes with a number, and the
  comparators of the claims only take remainders of small integers.
\<close>

type_synonym addr = nat

datatype vclass = TypedArray nat nat | DataView

datatype fn =
    ObjectCtor
  | ArrayCtor
  | DateCtor
  | RegExpCtor
  | MapCtor
  | SetCtor
  | ViewCtor vclass
  | NativeFn nat
  | UserFn nat

datatype val =
    Undefined
  | Null
  | Bool bool
  | Num int
  | Str string
  | Sym nat
  | Fn fn
  | Ref addr

datatype pkey = KIdx nat | KStr string | KSym nat

text \<open>
  The descriptor of an own property. Own properties are data properties; an object with
  an own property that has a getter or a setter is not described.
\<close>

record pdesc =
  pvalue :: val
  enumerable :: bool
  writable :: bool
  configurable :: bool

text \<open>
  The prototype of an ordinary object: \<^verbatim>\<open>null\<close>, \<^verbatim>\<open>Object.prototype\<close>, or the
  prototype object of a user-defined class, given by its identity and the properties an
  instance inherits from it (nearest first; behind them stands \<^verbatim>\<open>Object.prototype\<close>).
\<close>

datatype proto = PNull | PObject | PUser nat "(pkey \<times> val) list"

text \<open>
  The kind of an object is what \<^verbatim>\<open>Array.isArray\<close>, \<^verbatim>\<open>instanceof\<close> and
  \<^verbatim>\<open>ArrayBuffer.isView\<close> observe, with the internal data of the built-in classes:
  the time value of a date; source, flags and \<^verbatim>\<open>lastIndex\<close> of a regular expression;
  the entries of a map and the members of a set in insertion order; name, type and
  content of a file; the bytes of a buffer; class, buffer, byte offset and byte length
  of a view. An array carries its \<^verbatim>\<open>length\<close>.
\<close>

datatype kind =
    Ordinary proto
  | ArrayK nat
  | DateK int
  | RegExpK string string val
  | MapK "(val \<times> val) list"
  | SetK "val list"
  | FileK string string "nat list"
  | BufferK "nat list"
  | ViewK vclass addr nat nat
  | PromiseK
  | ErrorK
  | WeakMapK
  | WeakSetK

record obj =
  kind :: kind
  props :: "(pkey \<times> pdesc) list"

type_synonym heap = "obj list"

type_synonym cache = "addr set"

text \<open>
  What a call can end with besides a value: a \<^verbatim>\<open>TypeError\<close> or \<^verbatim>\<open>RangeError\<close>
  raised by the host, or behaviour of the host that this development does not describe
  (\<open>Unmodelled\<close>: running a user-defined constructor, constructing a built-in other than
  the one of the object's own kind, a write that the host treats in a way of its own, a
  reference to no object). \<open>Unmodelled\<close> says nothing about the code: where it stands, the
  code may return as well as raise.
\<close>

datatype error = TypeError | RangeError | Unmodelled

definition truthy :: "val \<Rightarrow> bool" where
  "truthy v = (case v of
       Undefined \<Rightarrow> False
     | Null \<Rightarrow> False
     | Bool b \<Rightarrow> b
     | Num n \<Rightarrow> n \<noteq> 0
     | Str s \<Rightarrow> s \<noteq> []
     | _ \<Rightarrow> True)"

definition is_callable :: "val \<Rightarrow> bool" where
  "is_callable v = (case v of Fn _ \<Rightarrow> True | _ \<Rightarrow> False)"

definition is_sym :: "pkey \<Rightarrow> bool" where
  "is_sym k = (case k of KSym _ \<Rightarrow> True | _ \<Rightarrow> False)"

definition is_idx :: "pkey \<Rightarrow> bool" where
  "is_idx k = (case k of KIdx _ \<Rightarrow> True | _ \<Rightarrow> False)"

definition data_prop :: "val \<Rightarrow> pdesc" where
  "data_prop v = \<lparr>pvalue = v, enumerable = True, writable = True, configurable = True\<rparr>"

subsection \<open>Property access\<close>

definition own_prop :: "obj \<Rightarrow> pkey \<Rightarrow> pdesc option" where
  "own_prop ob k = map_of (props ob) k"

text \<open>The constructor that the prototype of a built-in kind carries.\<close>

definition kind_ctor :: "kind \<Rightarrow> val" where
  "kind_ctor kd = (case kd of
       Ordinary PNull \<Rightarrow> Undefined
     | Ordinary PObject \<Rightarrow> Fn ObjectCtor
     | Ordinary (PUser n inh) \<Rightarrow>
         (case map_of inh (KStr ''constructor'') of Some c \<Rightarrow> c | None \<Rightarrow> Fn ObjectCtor)
     | ArrayK n \<Rightarrow> Fn ArrayCtor
     | DateK t \<Rightarrow> Fn DateCtor
     | RegExpK s f l \<Rightarrow> Fn RegExpCtor
     | MapK es \<Rightarrow> Fn MapCtor
     | SetK ms \<Rightarrow> Fn SetCtor
     | FileK n t bs \<Rightarrow> Fn (NativeFn 0)
     | BufferK bs \<Rightarrow> Fn (NativeFn 1)
     | ViewK c b off len \<Rightarrow> Fn (ViewCtor c)
     | PromiseK \<Rightarrow> Fn (NativeFn 2)
     | ErrorK \<Rightarrow> Fn (NativeFn 3)
     | WeakMapK \<Rightarrow> Fn (NativeFn 4)
     | WeakSetK \<Rightarrow> Fn (NativeFn 5))"

text \<open>\<^verbatim>\<open>object.constructor\<close>: the own property when there is one, else the inherited one.\<close>

definition get_constructor :: "obj \<Rightarrow> val" where
  "get_constructor ob = (case own_prop ob (KStr ''constructor'') of
       Some p \<Rightarrow> pvalue p
     | None \<Rightarrow> kind_ctor (kind ob))"

text \<open>\<^verbatim>\<open>object.then\<close>: own, inherited from a user class, or \<^verbatim>\<open>Promise.prototype.then\<close>.\<close>

definition get_then :: "obj \<Rightarrow> val" where
  "get_then ob = (case own_prop ob (KStr ''then'') of
       Some p \<Rightarrow> pvalue p
     | None \<Rightarrow> (case kind ob of
           Ordinary (PUser n inh) \<Rightarrow>
             (case map_of inh (KStr ''then'') of Some t \<Rightarrow> t | None \<Rightarrow> Undefined)
         | PromiseK \<Rightarrow> Fn (NativeFn 6)
         | _ \<Rightarrow> Undefined))"

text \<open>\<^verbatim>\<open>object[key]\<close> for an own key; the \<^verbatim>\<open>length\<close> of an array is part of its kind.\<close>

definition get_own :: "obj \<Rightarrow> pkey \<Rightarrow> val" where
  "get_own ob k = (case own_prop ob k of
       Some p \<Rightarrow> pvalue p
     | None \<Rightarrow> (case kind ob of
           ArrayK n \<Rightarrow> (if k = KStr ''length'' then Num (int n) else Undefined)
         | _ \<Rightarrow> Undefined))"


definition array_length :: "obj \<Rightarrow> nat" where
  "array_length ob = (case kind ob of ArrayK n \<Rightarrow> n | _ \<Rightarrow> 0)"

text \<open>
  Keys a \<^verbatim>\<open>for ... in\<close> loop visits and \<^verbatim>\<open>hasOwnProperty\<close> keeps: the own enumerable
  string keys, in the order of the property list.
\<close>

definition for_in_own_keys :: "obj \<Rightarrow> pkey list" where
  "for_in_own_keys ob = map fst (filter (\<lambda>(k, p). \<not> is_sym k \<and> enumerable p) (props ob))"

definition getOwnPropertySymbols :: "obj \<Rightarrow> pkey list" where
  "getOwnPropertySymbols ob = filter is_sym (map fst (props ob))"

definition propertyIsEnumerable :: "obj \<Rightarrow> pkey \<Rightarrow> bool" where
  "propertyIsEnumerable ob k = (case own_prop ob k of Some p \<Rightarrow> enumerable p | None \<Rightarrow> False)"

text \<open>
  \<^verbatim>\<open>getOwnPropertyNames\<close>: every own string key, enumerable or not. An array has its
  \<^verbatim>\<open>length\<close> behind its indices.
\<close>

definition getOwnPropertyNames :: "obj \<Rightarrow> pkey list" where
  "getOwnPropertyNames ob =
     (let ks = filter (\<lambda>k. \<not> is_sym k) (map fst (props ob)) in
      case kind ob of
        ArrayK n \<Rightarrow> filter is_idx ks @ [KStr ''length''] @ filter (\<lambda>k. \<not> is_idx k) ks
      | _ \<Rightarrow> ks)"

definition getOwnPropertyDescriptor :: "obj \<Rightarrow> pkey \<Rightarrow> pdesc option" where
  "getOwnPropertyDescriptor ob k = (case own_prop ob k of
       Some p \<Rightarrow> Some p
     | None \<Rightarrow> (case kind ob of
           ArrayK n \<Rightarrow> (if k = KStr ''length''
              then Some \<lparr>pvalue = Num (int n), enumerable = False, writable = True,
                         configurable = False\<rparr>
              else None)
         | _ \<Rightarrow> None))"

subsection \<open>Writing to an object\<close>

definition upsert :: "pkey \<Rightarrow> pdesc \<Rightarrow> (pkey \<times> pdesc) list \<Rightarrow> (pkey \<times> pdesc) list" where
  "upsert k p ps = (if k \<in> fst ` set ps
     then map (\<lambda>(k', p'). if k' = k then (k', p) else (k', p')) ps
     else ps @ [(k, p)])"

definition grow :: "pkey \<Rightarrow> kind \<Rightarrow> kind" where
  "grow k kd = (case (kd, k) of
       (ArrayK n, KIdx i) \<Rightarrow> ArrayK (max n (Suc i))
     | _ \<Rightarrow> kd)"

text \<open>
  \<^verbatim>\<open>clone[key] = value\<close>, in the strict code of the module. On an ordinary object
  an own property that is writable takes the value and keeps its attributes, one that
  is not writable makes the assignment raise, and a key that is not an own one becomes
  an enumerable, writable, configurable data property (what \<^verbatim>\<open>Object.prototype\<close> and
  the prototype of a user-defined class hand down is taken to be writable data).
  Assigning \<^verbatim>\<open>__proto__\<close> where \<^verbatim>\<open>Object.prototype\<close> is inherited would reach its
  setter, which is left undescribed. On an array an index is assigned in the same way,
  and one at or beyond the length extends the array; other keys of an array are left
  undescribed. A map and a set inherit \<^verbatim>\<open>size\<close> as a property with a getter and no
  setter, so assigning it raises; every other assignment on an object of a built-in
  class is left undescribed.
\<close>

definition assign :: "obj \<Rightarrow> pkey \<Rightarrow> val \<Rightarrow> error + obj" where
  "assign ob k v =
     (let put = (case own_prop ob k of
            Some p \<Rightarrow>
              (if writable p
               then Inr (ob\<lparr>props := upsert k (p\<lparr>pvalue := v\<rparr>) (props ob)\<rparr>)
               else Inl TypeError)
          | None \<Rightarrow>
              Inr (ob\<lparr>kind := grow k (kind ob), props := upsert k (data_prop v) (props ob)\<rparr>))
      in case kind ob of
        Ordinary p \<Rightarrow> (if k = KStr ''__proto__'' \<and> p \<noteq> PNull then Inl Unmodelled else put)
      | ArrayK n \<Rightarrow> (if is_idx k then put else Inl Unmodelled)
      | MapK es \<Rightarrow> (if k = KStr ''size'' then Inl TypeError else Inl Unmodelled)
      | SetK ms \<Rightarrow> (if k = KStr ''size'' then Inl TypeError else Inl Unmodelled)
      | _ \<Rightarrow> Inl Unmodelled)"

text \<open>
  \<^verbatim>\<open>Object.defineProperty(clone, property, descriptor)\<close> with a data descriptor. A key
  that is not an own one becomes a property with the attributes of the descriptor, and
  an own property that is configurable is replaced; redefining one that is not
  configurable is left undescribed. An index of an array at or beyond the length extends
  it. The \<^verbatim>\<open>length\<close> of an array is neither enumerable nor configurable: a value that is
  no array length raises a \<^verbatim>\<open>RangeError\<close>, then a descriptor that says enumerable or
  configurable raises a \<^verbatim>\<open>TypeError\<close>, then a length not below the present one is set;
  a smaller one would delete elements and a value that is no number would be converted,
  both left undescribed, as are definitions on objects of the other built-in classes.
\<close>

definition defineProperty :: "obj \<Rightarrow> pkey \<Rightarrow> pdesc \<Rightarrow> error + obj" where
  "defineProperty ob k d =
     (let put = (case own_prop ob k of
            Some p \<Rightarrow>
              (if configurable p then Inr (ob\<lparr>props := upsert k d (props ob)\<rparr>)
               else Inl Unmodelled)
          | None \<Rightarrow> Inr (ob\<lparr>kind := grow k (kind ob), props := upsert k d (props ob)\<rparr>))
      in case kind ob of
        Ordinary p \<Rightarrow> put
      | ArrayK n \<Rightarrow>
          (if k = KStr ''length'' then
             (case pvalue d of
                Num m \<Rightarrow>
                  (if m < 0 \<or> 4294967296 \<le> m then Inl RangeError
                   else if enumerable d \<or> configurable d then Inl TypeError
                   else if int n \<le> m then Inr (ob\<lparr>kind := ArrayK (nat m)\<rparr>)
                   else Inl Unmodelled)
              | _ \<Rightarrow> Inl Unmodelled)
           else put)
      | _ \<Rightarrow> Inl Unmodelled)"

definition map_set :: "val \<Rightarrow> val \<Rightarrow> (val \<times> val) list \<Rightarrow> (val \<times> val) list" where
  "map_set k v es = (if k \<in> fst ` set es
     then map (\<lambda>(k', v'). if k' = k then (k', v) else (k', v')) es
     else es @ [(k, v)])"

definition set_add :: "val \<Rightarrow> val list \<Rightarrow> val list" where
  "set_add v ms = (if v \<in> set ms then ms else ms @ [v])"

subsection \<open>The heap\<close>

definition lookup :: "heap \<Rightarrow> addr \<Rightarrow> obj option" where
  "lookup h a = (if a < length h then Some (h ! a) else None)"

definition alloc :: "heap \<Rightarrow> obj \<Rightarrow> addr \<times> heap" where
  "alloc h ob = (length h, h @ [ob])"

definition empty_obj :: "kind \<Rightarrow> obj" where
  "empty_obj kd = \<lparr>kind = kd, props = []\<rparr>"

section \<open>The clone engine\<close>

text \<open>
  \<^verbatim>\<open>Function.prototype.toString\<close> of a built-in function contains \<^verbatim>\<open>[native code]\<close>;
  the text of a user-defined function is taken not to.
\<close>

definition native_code :: "fn \<Rightarrow> bool" where
  "native_code f = (case f of UserFn n \<Rightarrow> False | _ \<Rightarrow> True)"

text \<open>
  \<^verbatim>\<open>new constructor()\<close> with no argument, for the built-in constructors whose result
  does not depend on the environment. \<^verbatim>\<open>new DataView()\<close> raises.
\<close>

definition construct0 :: "heap \<Rightarrow> fn \<Rightarrow> error + addr \<times> heap" where
  "construct0 h f = (case f of
       ObjectCtor \<Rightarrow> Inr (alloc h (empty_obj (Ordinary PObject)))
     | ArrayCtor \<Rightarrow> Inr (alloc h (empty_obj (ArrayK 0)))
     | RegExpCtor \<Rightarrow> Inr (alloc h (empty_obj (RegExpK ''(?:)'' [] (Num 0))))
     | MapCtor \<Rightarrow> Inr (alloc h (empty_obj (MapK [])))
     | SetCtor \<Rightarrow> Inr (alloc h (empty_obj (SetK [])))
     | ViewCtor (TypedArray i sz) \<Rightarrow>
         (let (b, h') = alloc h (empty_obj (BufferK []))
          in Inr (alloc h' (empty_obj (ViewK (TypedArray i sz) b 0 0))))
     | ViewCtor DataView \<Rightarrow> Inl TypeError
     | _ \<Rightarrow> Inl Unmodelled)"

text \<open>\<^verbatim>\<open>new constructor(...)\<close> where \<^verbatim>\<open>constructor\<close> is whatever the object answered.\<close>

definition construct_as :: "val \<Rightarrow> fn \<Rightarrow> heap \<Rightarrow> kind \<Rightarrow> error + addr \<times> heap" where
  "construct_as c expected h kd = (case c of
       Fn f \<Rightarrow> (if f = expected then Inr (alloc h (empty_obj kd)) else Inl Unmodelled)
     | _ \<Rightarrow> Inl TypeError)"

definition prototype_of :: "obj \<Rightarrow> proto option" where
  "prototype_of ob = (case kind ob of Ordinary p \<Rightarrow> Some p | _ \<Rightarrow> None)"

definition create :: "heap \<Rightarrow> proto option \<Rightarrow> error + addr \<times> heap" where
  "create h p = (case p of
       Some pr \<Rightarrow> Inr (alloc h (empty_obj (Ordinary pr)))
     | None \<Rightarrow> Inl Unmodelled)"

definition getCleanClone :: "heap \<Rightarrow> obj \<Rightarrow> error + addr \<times> heap" where
  "getCleanClone h object =
     (let c = get_constructor object in
      if \<not> truthy c then create h (Some PNull)
      else if own_prop object (KStr ''__proto__'') \<noteq> None then Inl Unmodelled
      else
        let prototype = prototype_of object in
        if c = Fn ObjectCtor then
          (if prototype = Some PObject then Inr (alloc h (empty_obj (Ordinary PObject)))
           else create h prototype)
        else (case c of
            Fn f \<Rightarrow>
              (if native_code f then
                 (case construct0 h f of
                    Inr r \<Rightarrow> Inr r
                  | Inl Unmodelled \<Rightarrow> Inl Unmodelled
                  | Inl _ \<Rightarrow> create h prototype)
               else create h prototype)
          | _ \<Rightarrow> Inl TypeError))"

definition getRegExpFlags :: "string \<Rightarrow> string" where
  "getRegExpFlags fl =
     (if CHR ''g'' \<in> set fl then ''g'' else []) @
     (if CHR ''i'' \<in> set fl then ''i'' else []) @
     (if CHR ''m'' \<in> set fl then ''m'' else []) @
     (if CHR ''u'' \<in> set fl then ''u'' else []) @
     (if CHR ''y'' \<in> set fl then ''y'' else [])"

text \<open>
  The loops of the cloners. Each turn reads one child of the source object, copies it
  with \<open>handleCopy\<close> and writes the copy into the clone; an item says which child and
  how it is written.
\<close>

datatype item =
    Assign pkey
  | AssignSym pkey
  | Define pkey
  | Entry val val
  | Member val

datatype writer = WAssign pkey | WDefine pkey pdesc | WMapSet val | WSetAdd

text \<open>
  What a turn reads before it copies: \<open>None\<close> when the turn is skipped (a symbol that is
  not enumerable, \<^verbatim>\<open>callee\<close> and \<^verbatim>\<open>caller\<close> in strict mode).
\<close>

definition read_item :: "obj \<Rightarrow> item \<Rightarrow> error + (val \<times> writer) option" where
  "read_item object it = (case it of
       Assign k \<Rightarrow> Inr (Some (get_own object k, WAssign k))
     | AssignSym k \<Rightarrow>
         (if propertyIsEnumerable object k then Inr (Some (get_own object k, WAssign k))
          else Inr None)
     | Define k \<Rightarrow>
         (if k \<noteq> KStr ''callee'' \<and> k \<noteq> KStr ''caller'' then
            (case getOwnPropertyDescriptor object k of
               Some d \<Rightarrow> Inr (Some (get_own object k, WDefine k d))
             | None \<Rightarrow> Inl TypeError)
          else Inr None)
     | Entry k v \<Rightarrow> Inr (Some (v, WMapSet k))
     | Member v \<Rightarrow> Inr (Some (v, WSetAdd)))"

definition write_item :: "obj \<Rightarrow> writer \<Rightarrow> val \<Rightarrow> error + obj" where
  "write_item clone w r = (case w of
       WAssign k \<Rightarrow> assign clone k r
     | WDefine k d \<Rightarrow> defineProperty clone k (d\<lparr>pvalue := r\<rparr>)
     | WMapSet k \<Rightarrow> (case kind clone of
           MapK es \<Rightarrow> Inr (clone\<lparr>kind := MapK (map_set k r es)\<rparr>)
         | _ \<Rightarrow> Inl Unmodelled)
     | WSetAdd \<Rightarrow> (case kind clone of
           SetK ms \<Rightarrow> Inr (clone\<lparr>kind := SetK (set_add r ms)\<rparr>)
         | _ \<Rightarrow> Inl Unmodelled))"

definition loose_items :: "obj \<Rightarrow> item list" where
  "loose_items object =
     map Assign (for_in_own_keys object) @ map AssignSym (getOwnPropertySymbols object)"

definition strict_items :: "obj \<Rightarrow> item list" where
  "strict_items object =
     map Define (getOwnPropertyNames object @ getOwnPropertySymbols object)"

text \<open>
  What \<open>handleCopy\<close> decides for an object before it descends: hand a value back as it
  is; a clone that is complete without copying any child (with the heap holding it, and
  whether the source went into the cache); or an empty clone and the turns of the loop
  that fills it.
\<close>

datatype plan =
    Return val
  | Build addr heap bool
  | Descend addr heap "item list"

definition getObjectCloneLoose :: "heap \<Rightarrow> obj \<Rightarrow> error + plan" where
  "getObjectCloneLoose h object = (case getCleanClone h object of
       Inl e \<Rightarrow> Inl e
     | Inr (clone, h') \<Rightarrow> Inr (Descend clone h' (loose_items object)))"

definition getObjectCloneStrict :: "heap \<Rightarrow> obj \<Rightarrow> error + plan" where
  "getObjectCloneStrict h object = (case getCleanClone h object of
       Inl e \<Rightarrow> Inl e
     | Inr (clone, h') \<Rightarrow> Inr (Descend clone h' (strict_items object)))"

definition getObjectClone :: "bool \<Rightarrow> heap \<Rightarrow> obj \<Rightarrow> error + plan" where
  "getObjectClone isStrict = (if isStrict then getObjectCloneStrict else getObjectCloneLoose)"

definition built :: "bool \<Rightarrow> error + addr \<times> heap \<Rightarrow> error + plan" where
  "built cached r = (case r of Inl e \<Rightarrow> Inl e | Inr (clone, h') \<Rightarrow> Inr (Build clone h' cached))"

definition descend :: "item list \<Rightarrow> error + addr \<times> heap \<Rightarrow> error + plan" where
  "descend its r = (case r of Inl e \<Rightarrow> Inl e | Inr (clone, h') \<Rightarrow> Inr (Descend clone h' its))"

text \<open>
  The body of \<open>handleCopy\<close> for an object that is not in the cache, in the order of the
  source: plain objects, arrays, dates, regular expressions, maps, sets, files, views
  and buffers, the values handed back uncloned, and at last every other object.
\<close>

definition dispatch :: "bool \<Rightarrow> heap \<Rightarrow> addr \<Rightarrow> obj \<Rightarrow> error + plan" where
  "dispatch isStrict h a objectInHandle =
     (let constructor = get_constructor objectInHandle in
      if constructor = Fn ObjectCtor then getObjectClone isStrict h objectInHandle
      else case kind objectInHandle of
        ArrayK n \<Rightarrow>
          (if isStrict then getObjectCloneStrict h objectInHandle
           else descend (map (\<lambda>index. Assign (KIdx index)) [0..<n])
                  (case constructor of
                     Fn f \<Rightarrow> construct0 h f
                   | _ \<Rightarrow> Inl TypeError))
      | DateK t \<Rightarrow> built False (construct_as constructor DateCtor h (DateK t))
      | RegExpK source fl lastIndex \<Rightarrow>
          built False (construct_as constructor RegExpCtor h
            (RegExpK source (if fl \<noteq> [] then fl else getRegExpFlags fl) lastIndex))
      | MapK es \<Rightarrow>
          descend (map (\<lambda>(key, value). Entry key value) es)
            (construct_as constructor MapCtor h (MapK []))
      | SetK ms \<Rightarrow>
          descend (map Member ms) (construct_as constructor SetCtor h (SetK []))
      | FileK name type bs \<Rightarrow> Inr (case alloc h (empty_obj (FileK name type bs)) of
            (clone, h') \<Rightarrow> Build clone h' True)
      | ViewK vc b off len \<Rightarrow>
          (case lookup h b of
             Some buffer \<Rightarrow>
               (case kind buffer of
                  BufferK bs \<Rightarrow>
                    (case alloc h (empty_obj (BufferK bs)) of (b', h') \<Rightarrow>
                       (case vc of
                          TypedArray i sz \<Rightarrow>
                            (if sz \<noteq> 0 \<and> length bs mod sz \<noteq> 0
                             then (case constructor of
                                     Fn f \<Rightarrow> (if f = ViewCtor vc then Inl RangeError
                                               else Inl Unmodelled)
                                   | _ \<Rightarrow> Inl TypeError)
                             else built False (construct_as constructor (ViewCtor vc) h'
                                    (ViewK vc b' 0 (length bs))))
                        | DataView \<Rightarrow>
                            built False (construct_as constructor (ViewCtor vc) h'
                              (ViewK vc b' 0 (length bs)))))
                | _ \<Rightarrow> Inl Unmodelled)
           | None \<Rightarrow> Inl Unmodelled)
      | BufferK bs \<Rightarrow> Inr (case alloc h (empty_obj (BufferK bs)) of
            (clone, h') \<Rightarrow> Build clone h' False)
      | _ \<Rightarrow>
          (if is_callable (get_then objectInHandle)
              \<or> kind objectInHandle = ErrorK
              \<or> kind objectInHandle = WeakMapK
              \<or> kind objectInHandle = WeakSetK
           then Inr (Return (Ref a))
           else getObjectClone isStrict h objectInHandle))"

text \<open>
  \<open>handleCopy\<close> and the loop of a cloner. The source recurses without a bound; here a
  descent into an object takes one unit of fuel, and \<open>None\<close> says that the fuel ran out.
  A value that is no object, and an object of the cache, come back as they are.
\<close>

fun handleCopy :: "bool \<Rightarrow> nat \<Rightarrow> val \<Rightarrow> heap \<Rightarrow> cache \<Rightarrow> (error + val \<times> heap \<times> cache) option"
  and copy_items :: "bool \<Rightarrow> nat \<Rightarrow> addr \<Rightarrow> addr \<Rightarrow> item list \<Rightarrow> heap \<Rightarrow> cache
      \<Rightarrow> (error + heap \<times> cache) option"
where
  "handleCopy isStrict fuel v h cache =
     (case v of
        Ref a \<Rightarrow>
          (if a \<in> cache then Some (Inr (v, h, cache))
           else case lookup h a of
             None \<Rightarrow> Some (Inl Unmodelled)
           | Some objectInHandle \<Rightarrow>
               (case dispatch isStrict h a objectInHandle of
                  Inl e \<Rightarrow> Some (Inl e)
                | Inr (Return r) \<Rightarrow> Some (Inr (r, h, cache))
                | Inr (Build clone h' cached) \<Rightarrow>
                    Some (Inr (Ref clone, h', if cached then insert a cache else cache))
                | Inr (Descend clone h' its) \<Rightarrow>
                    (case fuel of
                       0 \<Rightarrow> None
                     | Suc fuel' \<Rightarrow>
                         (case copy_items isStrict fuel' a clone its h' (insert a cache) of
                            None \<Rightarrow> None
                          | Some (Inl e) \<Rightarrow> Some (Inl e)
                          | Some (Inr (h'', cache'')) \<Rightarrow> Some (Inr (Ref clone, h'', cache''))))))
      | _ \<Rightarrow> Some (Inr (v, h, cache)))"
| "copy_items isStrict fuel src clone [] h cache = Some (Inr (h, cache))"
| "copy_items isStrict fuel src clone (it # its) h cache =
     (case lookup h src of
        None \<Rightarrow> Some (Inl Unmodelled)
      | Some object \<Rightarrow>
          (case read_item object it of
             Inl e \<Rightarrow> Some (Inl e)
           | Inr None \<Rightarrow> copy_items isStrict fuel src clone its h cache
           | Inr (Some (child, w)) \<Rightarrow>
               (case handleCopy isStrict fuel child h cache of
                  None \<Rightarrow> None
                | Some (Inl e) \<Rightarrow> Some (Inl e)
                | Some (Inr (r, h', cache')) \<Rightarrow>
                    (case lookup h' clone of
                       None \<Rightarrow> Some (Inl Unmodelled)
                     | Some cl \<Rightarrow>
                         (case write_item cl w r of
                            Inl e \<Rightarrow> Some (Inl e)
                          | Inr cl' \<Rightarrow>
                              copy_items isStrict fuel src clone its (h'[clone := cl']) cache')))))"

declare handleCopy.simps [simp del]

text \<open>
  \<^verbatim>\<open>copy(object, options)\<close>: a fresh cache, and as much fuel as the heap has objects
  (no descent is repeated for an object of the cache, so on a well-formed heap this is
  never used up, as \<open>handleCopy_copied\<close> shows).
\<close>

definition copy :: "heap \<Rightarrow> val \<Rightarrow> bool \<Rightarrow> (error + val \<times> heap) option" where
  "copy h object isStrict = (case handleCopy isStrict (length h) object h {} of
       None \<Rightarrow> None
     | Some (Inl e) \<Rightarrow> Some (Inl e)
     | Some (Inr (r, h', cache)) \<Rightarrow> Some (Inr (r, h')))"

section \<open>The distinct filter\<close>

text \<open>
  What the downstream consumer sees: values, and at most one terminal event.
\<close>

datatype event = Next val | Error val | Complete

text \<open>
  Modelled from the spec: the downstream collaborator (section 6), which is a subscriber
  of the stream library and not part of the repository. It records the values it is
  handed and takes one terminal event, after which it ignores everything.
\<close>

record destination =
  isStopped :: bool
  received :: "event list"

definition dest_next :: "destination \<Rightarrow> val \<Rightarrow> destination" where
  "dest_next d v = (if isStopped d then d else d\<lparr>received := received d @ [Next v]\<rparr>)"

definition dest_error :: "destination \<Rightarrow> val \<Rightarrow> destination" where
  "dest_error d err =
     (if isStopped d then d else d\<lparr>isStopped := True, received := received d @ [Error err]\<rparr>)"

definition dest_complete :: "destination \<Rightarrow> destination" where
  "dest_complete d =
     (if isStopped d then d else d\<lparr>isStopped := True, received := received d @ [Complete]\<rparr>)"

text \<open>
  The two functions a caller can supply run on the heap and may change it. Each either
  returns (\<open>Inr\<close>) or throws a value (\<open>Inl\<close>).
\<close>

type_synonym keySelector = "heap \<Rightarrow> val \<Rightarrow> heap \<times> (val + val)"

type_synonym comparator = "heap \<Rightarrow> val \<Rightarrow> val \<Rightarrow> heap \<times> (val + bool)"

text \<open>
  \<^verbatim>\<open>DistinctUntilChangedSubscriber\<close>: its fields \<^verbatim>\<open>key\<close> and \<^verbatim>\<open>hasKey\<close> and its
  destination, together with the heap it runs on. \<open>compared\<close> is a log: the pair of
  arguments of every call of the comparator, in the order of the calls.
\<close>

record subscriber =
  store :: heap
  key :: val
  hasKey :: bool
  destination :: destination
  compared :: "(val \<times> val) list"

text \<open>
  How a call of \<^verbatim>\<open>_next\<close> ends: it returns, or an exception of \<open>copy\<close> leaves it (the
  call of \<open>copy\<close> stands outside both \<^verbatim>\<open>try\<close> blocks), or \<open>copy\<close> does not return.
  \<open>Threw Unmodelled\<close> stands for a call of \<open>copy\<close> that this development does not
  describe.
\<close>

datatype outcome = Returned | Threw error | NoReturn

text \<open>The last statement of \<^verbatim>\<open>_next\<close>: \<^verbatim>\<open>if (!result) { ... }\<close>.\<close>

definition forward :: "bool \<Rightarrow> val \<Rightarrow> val \<Rightarrow> subscriber \<Rightarrow> subscriber \<times> outcome" where
  "forward result k value s =
     (if \<not> result then
        (case copy (store s) k False of
           None \<Rightarrow> (s, NoReturn)
         | Some (Inl e) \<Rightarrow> (s, Threw e)
         | Some (Inr (k', h')) \<Rightarrow>
             (s\<lparr>store := h', key := k', destination := dest_next (destination s) value\<rparr>,
              Returned))
      else (s, Returned))"

definition extract_key :: "keySelector option \<Rightarrow> heap \<Rightarrow> val \<Rightarrow> heap \<times> (val + val)" where
  "extract_key keySelector h value = (case keySelector of
       Some f \<Rightarrow> f h value
     | None \<Rightarrow> (h, Inr value))"

text \<open>\<^verbatim>\<open>_next(value)\<close>.\<close>

definition p_next :: "comparator \<Rightarrow> keySelector option \<Rightarrow> val \<Rightarrow> subscriber
    \<Rightarrow> subscriber \<times> outcome" where
  "p_next compare keySelector value s =
     (case extract_key keySelector (store s) value of
        (h1, Inl err) \<Rightarrow>
          (s\<lparr>store := h1, destination := dest_error (destination s) err\<rparr>, Returned)
      | (h1, Inr k) \<Rightarrow>
          (if hasKey s then
             (case compare h1 (key s) k of
                (h2, Inl err) \<Rightarrow>
                  (s\<lparr>store := h2, compared := compared s @ [(key s, k)],
                     destination := dest_error (destination s) err\<rparr>, Returned)
              | (h2, Inr result) \<Rightarrow>
                  forward result k value
                    (s\<lparr>store := h2, compared := compared s @ [(key s, k)]\<rparr>))
           else forward False k value (s\<lparr>store := h1, hasKey := True\<rparr>)))"

text \<open>
  Modelled from the spec: the upstream collaborator (sections 5 and 6) hands the values
  over one at a time, in order; a value is handed over when the call for the one before
  has returned.
\<close>

fun deliver :: "comparator \<Rightarrow> keySelector option \<Rightarrow> val list \<Rightarrow> subscriber
    \<Rightarrow> subscriber \<times> outcome" where
  "deliver compare keySelector [] s = (s, Returned)"
| "deliver compare keySelector (value # values) s =
     (case p_next compare keySelector value s of
        (s', Returned) \<Rightarrow> deliver compare keySelector values s'
      | (s', out) \<Rightarrow> (s', out))"

text \<open>A subscriber as the constructor leaves it, on a heap.\<close>

definition subscribe :: "heap \<Rightarrow> subscriber" where
  "subscribe h = \<lparr>store = h, key = Undefined, hasKey = False,
     destination = \<lparr>isStopped = False, received = []\<rparr>, compared = []\<rparr>"

definition emitted :: "subscriber \<times> outcome \<Rightarrow> event list" where
  "emitted r = received (destination (fst r))"

text \<open>The comparator of the test suite, \<^verbatim>\<open>(x, y) => y % 2 === 0\<close>, on numbers.\<close>

definition successor_even :: comparator where
  "successor_even h x y = (h, Inr (case y of Num n \<Rightarrow> n mod 2 = 0 | _ \<Rightarrow> False))"


text \<open>A subscriber that holds a retained key and has emitted \<open>evs\<close> so far.\<close>

definition baseline :: "val \<Rightarrow> event list \<Rightarrow> heap \<Rightarrow> subscriber" where
  "baseline k evs h = \<lparr>store = h, key = k, hasKey = True,
     destination = \<lparr>isStopped = False, received = evs\<rparr>, compared = []\<rparr>"

subsection \<open>Objects of the examples\<close>



definition thenable :: obj where
  "thenable = \<lparr>kind = Ordinary PObject, props = [(KStr ''then'', data_prop (Fn (UserFn 0)))]\<rparr>"


subsection \<open>The branches of \<open>handleCopy\<close>, as predicates\<close>

text \<open>
  The test before the last branch: promise-like, an error, a \<^verbatim>\<open>WeakMap\<close> or a
  \<^verbatim>\<open>WeakSet\<close>.
\<close>

definition not_to_be_cloned :: "obj \<Rightarrow> bool" where
  "not_to_be_cloned ob = (is_callable (get_then ob) \<or> kind ob = ErrorK
     \<or> kind ob = WeakMapK \<or> kind ob = WeakSetK)"

text \<open>
  The objects that a branch above that test takes: those whose constructor is
  \<^verbatim>\<open>Object\<close>, arrays, dates, regular expressions, maps, sets, files, buffers and views.
\<close>

definition cloned_before_guard :: "obj \<Rightarrow> bool" where
  "cloned_before_guard ob = (get_constructor ob = Fn ObjectCtor \<or> (case kind ob of
       ArrayK n \<Rightarrow> True
     | DateK t \<Rightarrow> True
     | RegExpK s f l \<Rightarrow> True
     | MapK es \<Rightarrow> True
     | SetK ms \<Rightarrow> True
     | FileK n t bs \<Rightarrow> True
     | BufferK bs \<Rightarrow> True
     | ViewK c b off len \<Rightarrow> True
     | _ \<Rightarrow> False))"

section \<open>The equality engine\<close>

text \<open>
  Modelled from the spec: \<^verbatim>\<open>deepEqual\<close> of \<^verbatim>\<open>src/deep-equals.ts\<close>, which is not among
  the sources. Section 4.1 of the spec gives one rule for each type of value; \<open>R\<close>
  stands for the comparison of the parts. Arrays: same length, elements equal position
  by position. Dates: same instant. Regular expressions: same source, same set of flags.
  Maps: same size, every key of one present in the other with an equal value. Sets: the
  same members up to order. Buffers and views: same byte length, same bytes. Every other
  object: same constructor, same own enumerable keys, equal values under each key.
  Objects of differing type are not equal.
\<close>

definition view_bytes :: "heap \<Rightarrow> addr \<Rightarrow> nat \<Rightarrow> nat \<Rightarrow> nat list option" where
  "view_bytes h b off len = (case lookup h b of
       Some buffer \<Rightarrow> (case kind buffer of
           BufferK bs \<Rightarrow> Some (take len (drop off bs))
         | _ \<Rightarrow> None)
     | None \<Rightarrow> None)"

definition own_enumerable_keys :: "obj \<Rightarrow> pkey set" where
  "own_enumerable_keys ob = {k. \<exists>p. map_of (props ob) k = Some p \<and> enumerable p}"

definition obj_equal :: "(val \<Rightarrow> val \<Rightarrow> bool) \<Rightarrow> heap \<Rightarrow> obj \<Rightarrow> obj \<Rightarrow> bool" where
  "obj_equal R h x y = (case (kind x, kind y) of
       (ArrayK n, ArrayK m) \<Rightarrow>
         n = m \<and> (\<forall>i<n. R (get_own x (KIdx i)) (get_own y (KIdx i)))
     | (ArrayK n, _) \<Rightarrow> False
     | (_, ArrayK m) \<Rightarrow> False
     | (DateK s, DateK t) \<Rightarrow> s = t
     | (DateK s, _) \<Rightarrow> False
     | (_, DateK t) \<Rightarrow> False
     | (RegExpK s f l, RegExpK s' f' l') \<Rightarrow> s = s' \<and> set f = set f'
     | (RegExpK s f l, _) \<Rightarrow> False
     | (_, RegExpK s' f' l') \<Rightarrow> False
     | (MapK es, MapK es') \<Rightarrow>
         length es = length es'
         \<and> (\<forall>(k, v) \<in> set es. \<exists>v'. (k, v') \<in> set es' \<and> R v v')
         \<and> (\<forall>(k, v') \<in> set es'. \<exists>v. (k, v) \<in> set es \<and> R v v')
     | (MapK es, _) \<Rightarrow> False
     | (_, MapK es') \<Rightarrow> False
     | (SetK ms, SetK ms') \<Rightarrow> (\<exists>ms''. mset ms'' = mset ms' \<and> list_all2 R ms ms'')
     | (SetK ms, _) \<Rightarrow> False
     | (_, SetK ms') \<Rightarrow> False
     | (BufferK bs, BufferK bs') \<Rightarrow> bs = bs'
     | (BufferK bs, _) \<Rightarrow> False
     | (_, BufferK bs') \<Rightarrow> False
     | (ViewK c b off len, ViewK c' b' off' len') \<Rightarrow>
         len = len' \<and> view_bytes h b off len = view_bytes h b' off' len'
     | (ViewK c b off len, _) \<Rightarrow> False
     | (_, ViewK c' b' off' len') \<Rightarrow> False
     | _ \<Rightarrow>
         get_constructor x = get_constructor y
         \<and> own_enumerable_keys x = own_enumerable_keys y
         \<and> (\<forall>k \<in> own_enumerable_keys x. R (get_own x k) (get_own y k)))"

text \<open>
  Values that are no objects are equal when they are the same value; an object is equal
  to itself.
\<close>

definition val_equal :: "(val \<Rightarrow> val \<Rightarrow> bool) \<Rightarrow> heap \<Rightarrow> val \<Rightarrow> val \<Rightarrow> bool" where
  "val_equal R h a b = (case (a, b) of
       (Ref x, Ref y) \<Rightarrow> x = y \<or> (case (lookup h x, lookup h y) of
           (Some ox, Some oy) \<Rightarrow> obj_equal R h ox oy
         | _ \<Rightarrow> False)
     | (Ref x, _) \<Rightarrow> False
     | (_, Ref y) \<Rightarrow> False
     | _ \<Rightarrow> a = b)"

text \<open>
  Two values are deep-equal when a relation holds between them that is closed under the
  rules above. A cyclic structure is compared like any other: a pair that is met again
  is in the relation already.
\<close>

definition deepEqual :: "heap \<Rightarrow> val \<Rightarrow> val \<Rightarrow> bool" where
  "deepEqual h a b = (\<exists>R. R a b \<and> (\<forall>x y. R x y \<longrightarrow> val_equal R h x y))"

text \<open>
  The method \<^verbatim>\<open>compare\<close> of the subscriber, which the constructor replaces by the
  caller's function when one is given.
\<close>

definition compare_default :: comparator where
  "compare_default h x y = (h, Inr (deepEqual h x y))"

definition compare_of :: "comparator option \<Rightarrow> comparator" where
  "compare_of c = (case c of Some f \<Rightarrow> f | None \<Rightarrow> compare_default)"

text \<open>
  A buffer of four bytes and a view of its second and third byte
  (\<^verbatim>\<open>new Uint8Array(buffer, 1, 2)\<close>); and the heap after \<open>copy\<close> of the view.
\<close>

definition offset_view_heap :: heap where
  "offset_view_heap = [empty_obj (BufferK [0, 1, 2, 3]), empty_obj (ViewK (TypedArray 0 1) 0 1 2)]"

definition offset_view_copied :: heap where
  "offset_view_copied = offset_view_heap
     @ [empty_obj (BufferK [0, 1, 2, 3]), empty_obj (ViewK (TypedArray 0 1) 2 0 4)]"


section \<open>Heaps and invariants of a copy\<close>

text \<open>
  The values an object holds: of its properties, of its entries and members, and the
  buffer of a view. In a well-formed heap each of them that is a reference leads to an
  object of the heap.
\<close>

definition children :: "obj \<Rightarrow> val list" where
  "children ob = map (\<lambda>(k, p). pvalue p) (props ob) @ (case kind ob of
       MapK es \<Rightarrow> map fst es @ map snd es
     | SetK ms \<Rightarrow> ms
     | ViewK c b off len \<Rightarrow> [Ref b]
     | _ \<Rightarrow> [])"

definition closed_val :: "nat \<Rightarrow> val \<Rightarrow> bool" where
  "closed_val n v = (case v of Ref a \<Rightarrow> a < n | _ \<Rightarrow> True)"

definition wf_heap :: "heap \<Rightarrow> bool" where
  "wf_heap h = (\<forall>ob \<in> set h. \<forall>v \<in> set (children ob). closed_val (length h) v)"

text \<open>\<open>h'\<close> is \<open>h\<close> with objects added, one of them at \<open>c\<close>.\<close>

definition grows :: "heap \<Rightarrow> addr \<Rightarrow> heap \<Rightarrow> bool" where
  "grows h c h' = (length h \<le> c \<and> c < length h' \<and> take (length h) h' = h)"

text \<open>What a loop reads from its source object is a value the object holds.\<close>

definition items_ok :: "obj \<Rightarrow> item list \<Rightarrow> bool" where
  "items_ok ob its = (\<forall>it \<in> set its. \<forall>child w. read_item ob it = Inr (Some (child, w))
      \<longrightarrow> child \<in> set (children ob) \<or> (\<forall>x. child \<noteq> Ref x))"

definition plan_ok :: "heap \<Rightarrow> addr \<Rightarrow> obj \<Rightarrow> plan \<Rightarrow> bool" where
  "plan_ok h a ob p = (case p of
       Return r \<Rightarrow> r = Ref a
     | Build c h' b \<Rightarrow> grows h c h'
     | Descend c h' its \<Rightarrow> grows h c h' \<and> items_ok ob its)"

text \<open>
  During a copy that started on the heap \<open>h0\<close>: the objects of \<open>h0\<close> are still what
  they were; \<open>uncached\<close> counts those of them that are not in the cache; a value is
  \<open>known\<close> when it does not refer to an object made since.
\<close>

definition originals :: "heap \<Rightarrow> heap \<Rightarrow> bool" where
  "originals h0 h = (length h0 \<le> length h \<and> take (length h0) h = h0)"


definition known :: "heap \<Rightarrow> heap \<Rightarrow> val \<Rightarrow> bool" where
  "known h0 h v = (\<forall>a. v = Ref a \<longrightarrow> a < length h0 \<or> length h \<le> a)"



section \<open>When a clone equals its source\<close>

text \<open>
  The heaps on which \<open>copy\<close> is shown to return a clone that equals its source. Keys
  of a property list and of a map, and the members of a set, are not repeated (in
  JavaScript they never are). No object has an own property \<^verbatim>\<open>constructor\<close> or
  \<^verbatim>\<open>__proto__\<close>, and the constructor an instance of a user class inherits is a user
  function or \<^verbatim>\<open>Object\<close>. An array has a length below 4294967296, no own property
  \<^verbatim>\<open>length\<close> besides it, and every index below its length (in JavaScript always). A
  file has no enumerable own property. The \<^verbatim>\<open>then\<close> of a promise is callable. There
  is no view. In strict mode no object has an own property \<^verbatim>\<open>callee\<close> or
  \<^verbatim>\<open>caller\<close>, which the strict cloner leaves out.
\<close>

definition regular_obj :: "bool \<Rightarrow> obj \<Rightarrow> bool" where
  "regular_obj isStrict ob = (distinct (map fst (props ob))
     \<and> own_prop ob (KStr ''constructor'') = None
     \<and> own_prop ob (KStr ''__proto__'') = None
     \<and> (isStrict \<longrightarrow> own_prop ob (KStr ''callee'') = None \<and> own_prop ob (KStr ''caller'') = None)
     \<and> (case kind ob of
          Ordinary (PUser n inh) \<Rightarrow> (case map_of inh (KStr ''constructor'') of
              None \<Rightarrow> True
            | Some c \<Rightarrow> (case c of Fn f \<Rightarrow> \<not> native_code f \<or> f = ObjectCtor | _ \<Rightarrow> False))
        | ArrayK n \<Rightarrow> n < 4294967296 \<and> own_prop ob (KStr ''length'') = None
            \<and> (\<forall>i. own_prop ob (KIdx i) \<noteq> None \<longrightarrow> i < n)
        | MapK es \<Rightarrow> distinct (map fst es)
        | SetK ms \<Rightarrow> distinct ms
        | FileK n t bs \<Rightarrow> own_enumerable_keys ob = {}
        | ViewK c b off len \<Rightarrow> False
        | PromiseK \<Rightarrow> is_callable (get_then ob)
        | _ \<Rightarrow> True))"

definition regular :: "bool \<Rightarrow> heap \<Rightarrow> bool" where
  "regular isStrict h = (\<forall>ob \<in> set h. regular_obj isStrict ob)"

text \<open>
  An object of \<open>h\<close> that \<open>handleCopy\<close> hands back uncloned: the test before the last
  branch holds for it and no branch above takes it.
\<close>

definition passed :: "heap \<Rightarrow> addr \<Rightarrow> bool" where
  "passed h a = (a < length h \<and> not_to_be_cloned (h ! a) \<and> \<not> cloned_before_guard (h ! a))"

text \<open>
  How a part of a clone stands to the corresponding part of the source. \<open>M\<close> holds the
  clones made by a call, as pairs of the address of a clone and the address of its
  source; \<open>H\<close> holds the objects that the call found in its cache. The part of the clone
  is the clone of the part of the source; or it is the part of the source itself, which
  then is no object, or an object of \<open>H\<close>, or an object handed back uncloned.
\<close>

definition share :: "(addr \<times> addr) set \<Rightarrow> addr set \<Rightarrow> heap \<Rightarrow> val \<Rightarrow> val \<Rightarrow> bool" where
  "share M H h x y = ((\<exists>c s. (c, s) \<in> M \<and> x = Ref c \<and> y = Ref s)
     \<or> (x = y \<and> (\<forall>a. x = Ref a \<longrightarrow> a \<in> H \<or> passed h a)))"

text \<open>
  What a loop over \<open>its\<close> reads from the source object, and what writing the copies
  \<open>rs\<close> makes of the clone.
\<close>

fun reads :: "obj \<Rightarrow> item list \<Rightarrow> (val \<times> writer) list" where
  "reads ob [] = []"
| "reads ob (it # its) = (case read_item ob it of
       Inr (Some cw) \<Rightarrow> cw # reads ob its
     | _ \<Rightarrow> reads ob its)"

fun writes :: "obj \<Rightarrow> (writer \<times> val) list \<Rightarrow> error + obj" where
  "writes cl [] = Inr cl"
| "writes cl ((w, r) # wrs) = (case write_item cl w r of
       Inl e \<Rightarrow> Inl e
     | Inr cl' \<Rightarrow> writes cl' wrs)"

text \<open>
  The keys a loose clone is given: enumerable string keys, then enumerable symbols. The
  keys a strict clone is given: every own name, then every own symbol; for an array these
  are the indices, \<^verbatim>\<open>length\<close>, and the other keys. \<open>descriptor\<close> is the descriptor of
  a key that has one.
\<close>

definition loose_keys :: "obj \<Rightarrow> pkey list" where
  "loose_keys ob = for_in_own_keys ob
     @ filter (propertyIsEnumerable ob) (getOwnPropertySymbols ob)"

definition strict_keys :: "obj \<Rightarrow> pkey list" where
  "strict_keys ob = getOwnPropertyNames ob @ getOwnPropertySymbols ob"

definition index_keys :: "obj \<Rightarrow> pkey list" where
  "index_keys ob = filter is_idx (filter (\<lambda>k. \<not> is_sym k) (map fst (props ob)))"

definition other_keys :: "obj \<Rightarrow> pkey list" where
  "other_keys ob = filter (\<lambda>k. \<not> is_idx k) (filter (\<lambda>k. \<not> is_sym k) (map fst (props ob)))
     @ getOwnPropertySymbols ob"

definition descriptor :: "obj \<Rightarrow> pkey \<Rightarrow> pdesc" where
  "descriptor ob k = the (getOwnPropertyDescriptor ob k)"

text \<open>
  The keys for which \<open>assign\<close> and \<open>defineProperty\<close> add a property to an object of a
  kind that has none under the key.
\<close>

definition assignable :: "kind \<Rightarrow> pkey \<Rightarrow> bool" where
  "assignable kd k = (case kd of
       Ordinary p \<Rightarrow> k \<noteq> KStr ''__proto__''
     | ArrayK n \<Rightarrow> is_idx k
     | _ \<Rightarrow> False)"

definition definable :: "kind \<Rightarrow> pkey \<Rightarrow> bool" where
  "definable kd k = (case kd of
       Ordinary p \<Rightarrow> True
     | ArrayK n \<Rightarrow> k \<noteq> KStr ''length''
     | _ \<Rightarrow> False)"

text \<open>
  The turns of the loop that \<open>dispatch\<close> plans for a regular object (lemma
  \<open>descend_shape\<close>), and \<open>walk\<close>: the objects that \<open>handleCopy\<close> would meet from a
  value down to a depth if it had no cache, each as often as it is met. A value is
  \<open>unshared\<close> when no object is met twice, however deep the walk goes: a chain of more
  objects than the heap holds meets one of them twice.
\<close>

definition plan_items :: "bool \<Rightarrow> obj \<Rightarrow> item list" where
  "plan_items isStrict ob = (case kind ob of
       Ordinary p \<Rightarrow>
         (if not_to_be_cloned ob \<and> \<not> cloned_before_guard ob then []
          else if isStrict then strict_items ob else loose_items ob)
     | ArrayK n \<Rightarrow>
         (if isStrict then strict_items ob else map (\<lambda>index. Assign (KIdx index)) [0..<n])
     | MapK es \<Rightarrow> map (\<lambda>(key, value). Entry key value) es
     | SetK ms \<Rightarrow> map Member ms
     | _ \<Rightarrow> [])"

fun walk :: "bool \<Rightarrow> nat \<Rightarrow> heap \<Rightarrow> val \<Rightarrow> addr list" where
  "walk isStrict 0 h v = (case v of Ref a \<Rightarrow> [a] | _ \<Rightarrow> [])"
| "walk isStrict (Suc n) h v = (case v of
       Ref a \<Rightarrow> a # (case lookup h a of
           Some ob \<Rightarrow>
             concat (map (walk isStrict n h) (map fst (reads ob (plan_items isStrict ob))))
         | None \<Rightarrow> [])
     | _ \<Rightarrow> [])"


text \<open>
  The walk from several values; a cache that the walk does not touch; and what then holds
  of a call that went from that cache to the cache \<open>c'\<close> and found the objects \<open>H\<close> in
  its cache: it found none, and added only objects of the walk.
\<close>

definition walks :: "bool \<Rightarrow> nat \<Rightarrow> heap \<Rightarrow> val list \<Rightarrow> addr list" where
  "walks isStrict fuel h vs = concat (map (walk isStrict fuel h) vs)"

definition untouched :: "bool \<Rightarrow> nat \<Rightarrow> heap \<Rightarrow> cache \<Rightarrow> val list \<Rightarrow> bool" where
  "untouched isStrict fuel h cache vs = (distinct (walks isStrict fuel h vs)
     \<and> set (walks isStrict fuel h vs) \<inter> cache = {})"

definition quiet :: "bool \<Rightarrow> nat \<Rightarrow> heap \<Rightarrow> cache \<Rightarrow> val list \<Rightarrow> addr set \<Rightarrow> cache \<Rightarrow> bool" where
  "quiet isStrict fuel h cache vs H c' = (untouched isStrict fuel h cache vs
     \<longrightarrow> H = {} \<and> c' \<subseteq> cache \<union> set (walks isStrict fuel h vs))"

text \<open>
  \<open>newer h r\<close>: \<open>r\<close> refers to an object that \<open>h\<close> does not hold; \<open>made h h' r\<close>: to
  one that \<open>h'\<close> holds and \<open>h\<close> does not.
\<close>

definition newer :: "heap \<Rightarrow> val \<Rightarrow> bool" where
  "newer h r = (\<exists>c. r = Ref c \<and> length h \<le> c)"

definition made :: "heap \<Rightarrow> heap \<Rightarrow> val \<Rightarrow> bool" where
  "made h h' r = (\<exists>c. r = Ref c \<and> length h \<le> c \<and> c < length h')"

text \<open>
  Every clone of \<open>M\<close> was made since \<open>h\<close>, and in \<open>h'\<close> equals its source (an object of
  \<open>h0\<close>) by the rule of its type, the parts compared by \<open>share M H h0\<close>.
\<close>

definition mirror1 :: "(addr \<times> addr) set \<Rightarrow> addr set \<Rightarrow> heap \<Rightarrow> heap \<Rightarrow> heap \<Rightarrow> addr \<Rightarrow> addr
    \<Rightarrow> bool" where
  "mirror1 M H h0 h h' c s = (length h \<le> c \<and> c < length h' \<and> s < length h0
     \<and> obj_equal (share M H h0) h' (h' ! c) (h0 ! s))"

definition mirrored :: "(addr \<times> addr) set \<Rightarrow> addr set \<Rightarrow> heap \<Rightarrow> heap \<Rightarrow> heap \<Rightarrow> bool" where
  "mirrored M H h0 h h' = (\<forall>(c, s) \<in> M. mirror1 M H h0 h h' c s)"

text \<open>
  What \<open>handleCopy\<close> from \<open>h\<close> and \<open>cache\<close> to \<open>h'\<close> and \<open>c'\<close> with result \<open>r\<close> for \<open>v\<close>
  has done, and what a loop filling the clone at \<open>cl\<close> has done. Every object found in
  the cache is in the cache, and every object added to the cache has a clone.
\<close>

definition cloned :: "bool \<Rightarrow> nat \<Rightarrow> heap \<Rightarrow> heap \<Rightarrow> cache \<Rightarrow> val \<Rightarrow> val \<Rightarrow> heap \<Rightarrow> cache
    \<Rightarrow> bool" where
  "cloned isStrict fuel h0 h cache v r h' c' = (length h \<le> length h'
     \<and> (\<forall>a<length h. h' ! a = h ! a)
     \<and> (r = v \<or> made h h' r)
     \<and> cache \<subseteq> c'
     \<and> (\<exists>M H. mirrored M H h0 h h' \<and> share M H h0 r v \<and> H \<subseteq> c' \<and> c' \<subseteq> cache \<union> snd ` M
          \<and> quiet isStrict fuel h0 cache [v] H c'))"

definition looped :: "bool \<Rightarrow> nat \<Rightarrow> heap \<Rightarrow> heap \<Rightarrow> cache \<Rightarrow> addr \<Rightarrow> (val \<times> writer) list
    \<Rightarrow> heap \<Rightarrow> cache \<Rightarrow> bool" where
  "looped isStrict fuel h0 h cache cl rds h' c' = (length h \<le> length h'
     \<and> (\<forall>a<length h. a \<noteq> cl \<longrightarrow> h' ! a = h ! a)
     \<and> cache \<subseteq> c'
     \<and> (\<exists>M H rs. mirrored M H h0 h h'
          \<and> list_all2 (\<lambda>r ch. share M H h0 r ch \<and> (r = ch \<or> made h h' r)) rs (map fst rds)
          \<and> distinct (filter (newer h) rs)
          \<and> writes (h ! cl) (zip (map snd rds) rs) = Inr (h' ! cl)
          \<and> H \<subseteq> c' \<and> c' \<subseteq> cache \<union> snd ` M
          \<and> quiet isStrict fuel h0 cache (map fst rds) H c'))"

text \<open>
  Copies \<open>rs\<close> that are, where the value read is no object, that value; a clone that
  takes every write of the loop whatever such copies are written; and turns that read
  without raising.
\<close>

definition agree :: "val list \<Rightarrow> (val \<times> writer) list \<Rightarrow> bool" where
  "agree rs rds = list_all2 (\<lambda>r cw. (\<forall>a. fst cw \<noteq> Ref a) \<longrightarrow> r = fst cw) rs rds"

definition writable :: "obj \<Rightarrow> (val \<times> writer) list \<Rightarrow> bool" where
  "writable cl rds = (\<forall>rs. agree rs rds \<longrightarrow> (\<exists>final. writes cl (zip (map snd rds) rs) = Inr final))"

definition readable :: "obj \<Rightarrow> item list \<Rightarrow> bool" where
  "readable ob its = (\<forall>it \<in> set its. \<forall>e. read_item ob it \<noteq> Inl e)"



section \<open>Values that are not objects\<close>

lemma handleCopy_non_object:
  "\<forall>a. v \<noteq> Ref a \<Longrightarrow> handleCopy isStrict fuel v h cache = Some (Inr (v, h, cache))"
  by (cases v) (simp_all add: handleCopy.simps)

text \<open>
  C10. For an input that is not a non-null object (\<^verbatim>\<open>null\<close>, \<^verbatim>\<open>undefined\<close>, a
  number, a string, a boolean, a symbol, a function), \<open>copy\<close> returns the input itself
  and leaves the heap as it is, whatever \<open>isStrict\<close> is.
\<close>

theorem copy_non_object_identity:
  "\<forall>a. v \<noteq> Ref a \<Longrightarrow> copy h v isStrict = Some (Inr (v, h))"
  by (simp add: copy_def handleCopy_non_object)

theorem copy_non_object_identity_witness:
  "copy [] (Str ''a'') True = Some (Inr (Str ''a'', []))
   \<and> copy [] (Fn (UserFn 0)) False = Some (Inr (Fn (UserFn 0), []))
   \<and> copy [] Null False = Some (Inr (Null, []))"
  using copy_non_object_identity [of "Str ''a''" "[]" True]
    copy_non_object_identity [of "Fn (UserFn 0)" "[]" False]
    copy_non_object_identity [of Null "[]" False]
  by simp

section \<open>The values handed back uncloned\<close>

lemma dispatch_guard:
  assumes "not_to_be_cloned ob" and "\<not> cloned_before_guard ob"
  shows "dispatch isStrict h a ob = Inr (Return (Ref a))"
  using assms
  by (auto simp: dispatch_def not_to_be_cloned_def cloned_before_guard_def Let_def
      split: kind.splits)

text \<open>
  C8, as the claim states it, fails: the plain object \<^verbatim>\<open>{then: function () {}}\<close> is
  promise-like, and \<open>copy\<close> returns a new object for it in loose and in strict mode,
  because the branch for plain objects stands before the test for promise-like values.
\<close>

theorem thenable_plain_object_is_cloned:
  "not_to_be_cloned thenable
   \<and> copy [thenable] (Ref 0) False = Some (Inr (Ref 1, [thenable, thenable]))
   \<and> copy [thenable] (Ref 0) True = Some (Inr (Ref 1, [thenable, thenable]))"
proof -
  have "not_to_be_cloned thenable"
    by (simp add: not_to_be_cloned_def thenable_def get_then_def own_prop_def is_callable_def
        data_prop_def)
  moreover have "copy [thenable] (Ref 0) False = Some (Inr (Ref 1, [thenable, thenable]))"
    by code_simp
  moreover have "copy [thenable] (Ref 0) True = Some (Inr (Ref 1, [thenable, thenable]))"
    by code_simp
  ultimately show ?thesis by simp
qed

text \<open>
  C8, amended. An object that is promise-like, an error, a \<^verbatim>\<open>WeakMap\<close> or a
  \<^verbatim>\<open>WeakSet\<close>, and that no earlier branch of \<open>handleCopy\<close> takes (its constructor is
  not \<^verbatim>\<open>Object\<close>, and it is no array, date, regular expression, map, set, file, buffer
  or view), is returned by \<open>copy\<close> as the identical reference, on an unchanged heap, in
  strict and in loose mode.
\<close>

theorem guard_returns_input:
  assumes "lookup h a = Some ob" and "not_to_be_cloned ob" and "\<not> cloned_before_guard ob"
  shows "copy h (Ref a) isStrict = Some (Inr (Ref a, h))"
  using assms by (simp add: copy_def handleCopy.simps dispatch_guard)

theorem guard_returns_input_witness:
  "lookup [empty_obj PromiseK, empty_obj ErrorK] 0 = Some (empty_obj PromiseK)
   \<and> not_to_be_cloned (empty_obj PromiseK) \<and> \<not> cloned_before_guard (empty_obj PromiseK)
   \<and> copy [empty_obj PromiseK, empty_obj ErrorK] (Ref 0) True
       = Some (Inr (Ref 0, [empty_obj PromiseK, empty_obj ErrorK]))
   \<and> copy [empty_obj PromiseK, empty_obj ErrorK] (Ref 1) False
       = Some (Inr (Ref 1, [empty_obj PromiseK, empty_obj ErrorK]))"
  using guard_returns_input [of "[empty_obj PromiseK, empty_obj ErrorK]" 0 "empty_obj PromiseK" True]
    guard_returns_input [of "[empty_obj PromiseK, empty_obj ErrorK]" 1 "empty_obj ErrorK" False]
  by (simp add: lookup_def not_to_be_cloned_def cloned_before_guard_def empty_obj_def
      get_then_def get_constructor_def own_prop_def kind_ctor_def is_callable_def)

section \<open>One step of the filter\<close>

lemma dest_stopped_next [simp]: "isStopped d \<Longrightarrow> dest_next d v = d"
  by (simp add: dest_next_def)

lemma dest_stopped_error [simp]: "isStopped d \<Longrightarrow> dest_error d e = d"
  by (simp add: dest_error_def)

lemma forward_stopped:
  "isStopped (destination s) \<Longrightarrow> destination (fst (forward r k v s)) = destination s"
  by (simp add: forward_def split: option.splits sum.splits prod.splits)

lemma p_next_stopped:
  "isStopped (destination s) \<Longrightarrow> destination (fst (p_next compare ks v s)) = destination s"
  by (simp add: p_next_def forward_stopped split: prod.splits sum.splits)

lemma deliver_stopped:
  "isStopped (destination s) \<Longrightarrow> destination (fst (deliver compare ks vs s)) = destination s"
proof (induction vs arbitrary: s)
  case Nil
  then show ?case by simp
next
  case (Cons v vs)
  obtain s' out where st: "p_next compare ks v s = (s', out)" by (cases "p_next compare ks v s")
  with Cons.prems have d: "destination s' = destination s"
    using p_next_stopped [of s compare ks v] by simp
  show ?case
  proof (cases out)
    case Returned
    with st d Cons show ?thesis by simp
  qed (use st d in simp_all)
qed

text \<open>
  C2. When the filter holds a retained key and the key of the incoming value has been
  extracted, the comparator is called once, with the retained key as its first and the
  new key as its second argument; and when it returns \<open>True\<close> the value is dropped:
  nothing is emitted, the key stays, and the heap is the one the comparator left.
\<close>

theorem comparator_called_previous_first:
  assumes "hasKey s" and "extract_key keySelector (store s) value = (h1, Inr k)"
  shows "compared (fst (p_next compare keySelector value s)) = compared s @ [(key s, k)]
     \<and> (\<forall>h2. compare h1 (key s) k = (h2, Inr True) \<longrightarrow>
          p_next compare keySelector value s
            = (s\<lparr>store := h2, compared := compared s @ [(key s, k)]\<rparr>, Returned))"
  using assms
  by (simp add: p_next_def forward_def split: prod.splits sum.splits option.splits)

theorem comparator_called_previous_first_witness:
  "hasKey (baseline (Num 1) [Next (Num 1)] [])
   \<and> extract_key None (store (baseline (Num 1) [Next (Num 1)] [])) (Num 2) = ([], Inr (Num 2))
   \<and> compared (fst (p_next successor_even None (Num 2) (baseline (Num 1) [Next (Num 1)] [])))
       = [(Num 1, Num 2)]
   \<and> successor_even [] (Num 1) (Num 2) = ([], Inr True)
   \<and> emitted (p_next successor_even None (Num 2) (baseline (Num 1) [Next (Num 1)] []))
       = [Next (Num 1)]"
  using comparator_called_previous_first
    [of "baseline (Num 1) [Next (Num 1)] []" None "Num 2" "[]" "Num 2" successor_even]
  by (simp add: baseline_def extract_key_def successor_even_def emitted_def)





text \<open>
  C4. When the key-selector raises, or the comparator raises, the call returns with the
  error handed to the destination; the value in flight is not emitted; \<^verbatim>\<open>key\<close> and
  \<^verbatim>\<open>hasKey\<close> are as before; and whatever values are delivered afterwards, the
  destination has received what it had received before, then the error, and nothing
  else.
\<close>

theorem failure_is_terminal:
  assumes "extract_key keySelector (store s) value = (h1, Inl err)
      \<or> (hasKey s \<and> (\<exists>h0 k. extract_key keySelector (store s) value = (h0, Inr k)
            \<and> compare h0 (key s) k = (h1, Inl err)))"
  shows "\<exists>s'. p_next compare keySelector value s = (s', Returned)
      \<and> key s' = key s \<and> hasKey s' = hasKey s
      \<and> destination s' = dest_error (destination s) err
      \<and> (\<not> isStopped (destination s) \<longrightarrow>
           received (destination s') = received (destination s) @ [Error err]
           \<and> (\<forall>values. emitted (deliver compare keySelector values s')
                 = received (destination s) @ [Error err]))"
proof -
  obtain s' where st: "p_next compare keySelector value s = (s', Returned)"
    and k: "key s' = key s" "hasKey s' = hasKey s"
    and d: "destination s' = dest_error (destination s) err"
    using assms by (auto simp: p_next_def)
  have "emitted (deliver compare keySelector vs s') = received (destination s) @ [Error err]"
    if "\<not> isStopped (destination s)" for vs
  proof -
    from that d have "isStopped (destination s')" by (simp add: dest_error_def)
    then have "destination (fst (deliver compare keySelector vs s')) = destination s'"
      by (rule deliver_stopped)
    with that d show ?thesis by (simp add: emitted_def dest_error_def)
  qed
  with st k d show ?thesis by (simp add: dest_error_def)
qed

theorem failure_is_terminal_witness:
  "extract_key (Some (\<lambda>h v. (h, if v = Str ''d'' then Inl (Str ''error'') else Inr v)))
       (store (baseline (Str ''c'') [Next (Str ''c'')] [])) (Str ''d'') = ([], Inl (Str ''error''))
   \<and> \<not> isStopped (destination (baseline (Str ''c'') [Next (Str ''c'')] []))
   \<and> emitted (deliver successor_even
         (Some (\<lambda>h v. (h, if v = Str ''d'' then Inl (Str ''error'') else Inr v)))
         [Str ''d'', Str ''e'', Str ''f''] (baseline (Str ''c'') [Next (Str ''c'')] []))
       = [Next (Str ''c''), Error (Str ''error'')]"
  using failure_is_terminal
    [of "Some (\<lambda>h v. (h, if v = Str ''d'' then Inl (Str ''error'') else Inr v))"
        "baseline (Str ''c'') [Next (Str ''c'')] []" "Str ''d''" "[]" "Str ''error''"
        successor_even]
  by (simp add: baseline_def extract_key_def emitted_def p_next_def dest_error_def
      forward_def successor_even_def copy_def handleCopy.simps dest_next_def)




text \<open>
  C7. With the comparator \<^verbatim>\<open>(x, y) => y % 2 === 0\<close> and no key-selector, the values
  1, 2, 3, 4, 5, 6 delivered to a new subscriber make it emit 1, 3, 5, in this order.
\<close>

theorem successor_even_emits_odd:
  "emitted (deliver (compare_of (Some successor_even)) None (map Num [1, 2, 3, 4, 5, 6])
       (subscribe h))
     = [Next (Num 1), Next (Num 3), Next (Num 5)]"
  by (simp add: emitted_def subscribe_def p_next_def extract_key_def forward_def compare_of_def
      successor_even_def copy_def dest_next_def handleCopy.simps)






section \<open>Termination of the clone engine\<close>

lemma grows_alloc: "alloc h ob = (c, h') \<Longrightarrow> grows h c h'"
  by (auto simp: alloc_def grows_def)

lemma grows_construct0: "construct0 h f = Inr (c, h') \<Longrightarrow> grows h c h'"
  by (auto simp: construct0_def alloc_def grows_def split: fn.splits vclass.splits)

lemma grows_construct_as: "construct_as cv f h kd = Inr (c, h') \<Longrightarrow> grows h c h'"
  by (auto simp: construct_as_def alloc_def grows_def split: val.splits if_splits)

lemma grows_create: "create h p = Inr (c, h') \<Longrightarrow> grows h c h'"
  by (auto simp: create_def alloc_def grows_def split: option.splits)

lemma grows_getCleanClone: "getCleanClone h ob = Inr (c, h') \<Longrightarrow> grows h c h'"
  by (auto simp: getCleanClone_def Let_def alloc_def
      dest: grows_create grows_construct0 intro: grows_alloc
      split: if_splits val.splits sum.splits error.splits)

lemma grows_step: "grows h b h1 \<Longrightarrow> grows h1 c h' \<Longrightarrow> grows h c h'"
proof -
  assume a: "grows h b h1" and b: "grows h1 c h'"
  from a have l: "length h \<le> length h1" by (simp add: grows_def)
  from b have "take (length h) (take (length h1) h') = take (length h) h1" by (simp add: grows_def)
  with l have "take (length h) h' = take (length h) h1" by (simp add: min_def)
  with a b l show ?thesis by (auto simp: grows_def)
qed

lemma get_own_child: "get_own ob k \<in> set (children ob) \<or> (\<forall>x. get_own ob k \<noteq> Ref x)"
proof (cases "own_prop ob k")
  case None
  then show ?thesis by (auto simp: get_own_def split: kind.splits)
next
  case (Some p)
  then have "(k, p) \<in> set (props ob)" by (auto simp: own_prop_def dest: map_of_SomeD)
  then have "pvalue p \<in> set (children ob)" by (force simp: children_def)
  with Some show ?thesis by (simp add: get_own_def)
qed

lemma items_ok_keys:
  "\<forall>it \<in> set its. (\<exists>k. it = Assign k \<or> it = AssignSym k \<or> it = Define k) \<Longrightarrow> items_ok ob its"
  unfolding items_ok_def
proof (intro ballI allI impI)
  fix it child w
  assume a: "\<forall>it \<in> set its. (\<exists>k. it = Assign k \<or> it = AssignSym k \<or> it = Define k)"
    and "it \<in> set its" and r: "read_item ob it = Inr (Some (child, w))"
  then obtain k where "it = Assign k \<or> it = AssignSym k \<or> it = Define k" by blast
  with r have "child = get_own ob k"
    by (auto simp: read_item_def split: if_splits option.splits)
  then show "child \<in> set (children ob) \<or> (\<forall>x. child \<noteq> Ref x)"
    using get_own_child [of ob k] by simp
qed

lemma items_ok_loose: "items_ok ob (loose_items ob)"
  by (rule items_ok_keys) (auto simp: loose_items_def)

lemma items_ok_strict: "items_ok ob (strict_items ob)"
  by (rule items_ok_keys) (auto simp: strict_items_def)

lemma items_ok_index: "items_ok ob (map (\<lambda>index. Assign (KIdx index)) ns)"
  by (rule items_ok_keys) auto

lemma items_ok_entries: "kind ob = MapK es \<Longrightarrow> items_ok ob (map (\<lambda>(key, value). Entry key value) es)"
  by (force simp: items_ok_def read_item_def children_def)

lemma items_ok_members: "kind ob = SetK ms \<Longrightarrow> items_ok ob (map Member ms)"
  by (force simp: items_ok_def read_item_def children_def)

lemma plan_ok_loose: "getObjectCloneLoose h ob = Inr p \<Longrightarrow> plan_ok h a ob p"
  by (auto simp: getObjectCloneLoose_def plan_ok_def items_ok_loose
      dest: grows_getCleanClone split: sum.splits)

lemma plan_ok_strict: "getObjectCloneStrict h ob = Inr p \<Longrightarrow> plan_ok h a ob p"
  by (auto simp: getObjectCloneStrict_def plan_ok_def items_ok_strict
      dest: grows_getCleanClone split: sum.splits)

lemma plan_ok_clone: "getObjectClone isStrict h ob = Inr p \<Longrightarrow> plan_ok h a ob p"
  by (auto simp: getObjectClone_def dest: plan_ok_loose plan_ok_strict split: if_splits)

lemma plan_ok_built: "built b r = Inr p \<Longrightarrow> (\<And>c h'. r = Inr (c, h') \<Longrightarrow> grows h c h')
    \<Longrightarrow> plan_ok h a ob p"
  by (auto simp: built_def plan_ok_def split: sum.splits)

lemma plan_ok_descend: "descend its r = Inr p \<Longrightarrow> (\<And>c h'. r = Inr (c, h') \<Longrightarrow> grows h c h')
    \<Longrightarrow> items_ok ob its \<Longrightarrow> plan_ok h a ob p"
  by (auto simp: descend_def plan_ok_def split: sum.splits)

lemma dispatch_plan_ok:
  assumes "dispatch isStrict h a ob = Inr p"
  shows "plan_ok h a ob p"
proof (cases "get_constructor ob = Fn ObjectCtor")
  case True
  with assms show ?thesis by (auto simp: dispatch_def dest: plan_ok_clone)
next
  case False
  note nc = this
  show ?thesis
  proof (cases "kind ob")
    case (ArrayK n)
    with nc assms show ?thesis
      by (auto simp: dispatch_def Let_def items_ok_index
          dest: plan_ok_strict grows_construct0 elim!: plan_ok_descend
          split: if_splits val.splits)
  next
    case (DateK t)
    with nc assms show ?thesis
      by (auto simp: dispatch_def Let_def dest: grows_construct_as elim!: plan_ok_built)
  next
    case (RegExpK s f l)
    with nc assms show ?thesis
      by (auto simp: dispatch_def Let_def dest: grows_construct_as elim!: plan_ok_built)
  next
    case (MapK es)
    with nc assms show ?thesis
      by (auto simp: dispatch_def Let_def items_ok_entries dest: grows_construct_as
          elim!: plan_ok_descend)
  next
    case (SetK ms)
    with nc assms show ?thesis
      by (auto simp: dispatch_def Let_def items_ok_members dest: grows_construct_as
          elim!: plan_ok_descend)
  next
    case (FileK n t bs)
    with nc assms show ?thesis
      by (auto simp: dispatch_def Let_def plan_ok_def alloc_def grows_def)
  next
    case (BufferK bs)
    with nc assms show ?thesis
      by (auto simp: dispatch_def Let_def plan_ok_def alloc_def grows_def)
  next
    case (ViewK vc b off len)
    have g: "grows h c h'" if "construct_as cv f (h @ [x]) kd = Inr (c, h')" for cv f x kd c h'
      using grows_construct_as [OF that] grows_step [of h "length h" "h @ [x]" c h']
      by (simp add: grows_def)
    from ViewK nc assms show ?thesis
      by (auto simp: dispatch_def Let_def alloc_def dest: g elim!: plan_ok_built
          split: option.splits kind.splits vclass.splits if_splits val.splits)
  qed (use nc assms in \<open>auto simp: dispatch_def Let_def plan_ok_def dest: plan_ok_clone
         split: if_splits\<close>)
qed

lemma originals_lookup:
  "originals h0 h \<Longrightarrow> a < length h0 \<Longrightarrow> lookup h a = Some (h0 ! a)"
  by (auto simp: originals_def lookup_def) (metis nth_take)

lemma originals_update:
  "originals h0 h \<Longrightarrow> length h0 \<le> c \<Longrightarrow> originals h0 (h[c := ob])"
  by (simp add: originals_def)

lemma originals_grows: "originals h0 h \<Longrightarrow> grows h c h' \<Longrightarrow> originals h0 h'"
proof -
  assume a: "originals h0 h" and b: "grows h c h'"
  from a have "take (length h0) h' = take (length h0) (take (length h) h')"
    by (simp add: originals_def min_def)
  also from b have "\<dots> = take (length h0) h" by (simp add: grows_def)
  also from a have "\<dots> = h0" by (simp add: originals_def)
  finally have "take (length h0) h' = h0" .
  with a b show ?thesis by (simp add: originals_def grows_def)
qed






lemma dispatch_Return:
  assumes "dispatch isStrict h a ob = Inr (Return r)"
  shows "not_to_be_cloned ob \<and> \<not> cloned_before_guard ob"
proof (cases "get_constructor ob = Fn ObjectCtor")
  case True
  with assms show ?thesis
    by (auto simp: dispatch_def getObjectClone_def getObjectCloneLoose_def
        getObjectCloneStrict_def split: if_splits sum.splits)
next
  case False
  with assms show ?thesis
    by (cases "kind ob")
      (auto simp: dispatch_def Let_def getObjectClone_def getObjectCloneLoose_def
        getObjectCloneStrict_def built_def descend_def not_to_be_cloned_def
        cloned_before_guard_def alloc_def
        split: if_splits sum.splits option.splits kind.splits vclass.splits val.splits)
qed


section \<open>The clone is deep-equal to its source\<close>

lemma share_mono: "M \<subseteq> M' \<Longrightarrow> H \<subseteq> H' \<Longrightarrow> share M H h x y \<Longrightarrow> share M' H' h x y"
  unfolding share_def by blast

lemma share_prim: "share M H h x y \<Longrightarrow> \<forall>a. y \<noteq> Ref a \<Longrightarrow> x = y"
  by (auto simp: share_def)

lemma share_same: "\<forall>a. x \<noteq> Ref a \<Longrightarrow> share M H h x x"
  by (auto simp: share_def)

lemma obj_equal_mono:
  assumes "\<And>x y. R x y \<Longrightarrow> R' x y" and "obj_equal R h a b"
  shows "obj_equal R' h a b"
proof (cases "kind a")
  case (SetK ms)
  with assms show ?thesis
    by (cases "kind b") (auto simp: obj_equal_def intro: list_all2_mono)
qed (use assms in \<open>cases "kind b"; fastforce simp: obj_equal_def\<close>)+

lemma obj_equal_heap:
  assumes "\<forall>c b off len. kind y \<noteq> ViewK c b off len" and "obj_equal R h x y"
  shows "obj_equal R h' x y"
  using assms by (cases "kind x"; cases "kind y") (simp_all add: obj_equal_def)

lemma reads_append: "reads ob (xs @ ys) = reads ob xs @ reads ob ys"
  by (induction xs) (auto split: sum.splits option.splits)

lemma reads_Assign: "reads ob (map Assign ks) = map (\<lambda>k. (get_own ob k, WAssign k)) ks"
  by (induction ks) (auto simp: read_item_def)

lemma reads_AssignSym:
  "reads ob (map AssignSym ks)
     = map (\<lambda>k. (get_own ob k, WAssign k)) (filter (propertyIsEnumerable ob) ks)"
  by (induction ks) (auto simp: read_item_def)

lemma reads_Define:
  "\<forall>k \<in> set ks. k \<noteq> KStr ''callee'' \<and> k \<noteq> KStr ''caller''
      \<and> getOwnPropertyDescriptor ob k \<noteq> None
   \<Longrightarrow> reads ob (map Define ks) = map (\<lambda>k. (get_own ob k, WDefine k (descriptor ob k))) ks"
  by (induction ks) (auto simp: read_item_def descriptor_def)

lemma reads_Entry:
  "reads ob (map (\<lambda>(key, value). Entry key value) es) = map (\<lambda>(k, v). (v, WMapSet k)) es"
  by (induction es) (auto simp: read_item_def)

lemma reads_Member: "reads ob (map Member ms) = map (\<lambda>v. (v, WSetAdd)) ms"
  by (induction ms) (auto simp: read_item_def)

lemma upsert_new: "k \<notin> fst ` set ps \<Longrightarrow> upsert k p ps = ps @ [(k, p)]"
  by (simp add: upsert_def)

lemma own_prop_None: "k \<notin> fst ` set (props cl) \<Longrightarrow> own_prop cl k = None"
  by (simp add: own_prop_def map_of_eq_None_iff)

lemma assignable_grow: "assignable (grow k' kd) k = assignable kd k"
  by (cases kd; cases k') (simp_all add: assignable_def grow_def)

lemma definable_grow: "definable (grow k' kd) k = definable kd k"
  by (cases kd; cases k') (simp_all add: definable_def grow_def)

lemma assign_new:
  assumes "k \<notin> fst ` set (props cl)" and "assignable (kind cl) k"
  shows "assign cl k r
    = Inr (cl\<lparr>kind := grow k (kind cl), props := props cl @ [(k, data_prop r)]\<rparr>)"
  using assms
  by (cases "kind cl")
    (simp_all add: assign_def assignable_def own_prop_None upsert_new Let_def)

lemma define_new:
  assumes "k \<notin> fst ` set (props cl)" and "definable (kind cl) k"
  shows "defineProperty cl k d
    = Inr (cl\<lparr>kind := grow k (kind cl), props := props cl @ [(k, d)]\<rparr>)"
  using assms
  by (cases "kind cl")
    (simp_all add: defineProperty_def definable_def own_prop_None upsert_new Let_def)

lemma writes_append:
  "writes cl (xs @ ys) = (case writes cl xs of Inl e \<Rightarrow> Inl e | Inr cl' \<Rightarrow> writes cl' ys)"
  by (induction xs arbitrary: cl) (auto split: sum.splits)

lemma writes_assign:
  "distinct ks \<Longrightarrow> length rs = length ks \<Longrightarrow> set ks \<inter> fst ` set (props cl) = {}
   \<Longrightarrow> \<forall>k \<in> set ks. assignable (kind cl) k
   \<Longrightarrow> writes cl (zip (map WAssign ks) rs)
     = Inr (cl\<lparr>kind := foldl (\<lambda>kd k. grow k kd) (kind cl) ks,
               props := props cl @ map (\<lambda>(k, r). (k, data_prop r)) (zip ks rs)\<rparr>)"
proof (induction ks arbitrary: cl rs)
  case Nil
  then show ?case by simp
next
  case (Cons k ks)
  from Cons.prems(2) obtain r rs' where rs: "rs = r # rs'" by (cases rs) auto
  from Cons.prems(3) have nk: "k \<notin> fst ` set (props cl)" by auto
  define cl' where "cl' = cl\<lparr>kind := grow k (kind cl), props := props cl @ [(k, data_prop r)]\<rparr>"
  from Cons.prems(4) have "assignable (kind cl) k" by simp
  with nk have a: "assign cl k r = Inr cl'" unfolding cl'_def by (rule assign_new)
  have d: "distinct ks" "length rs' = length ks" using Cons.prems(1,2) rs by auto
  have i: "set ks \<inter> fst ` set (props cl') = {}" using Cons.prems(1,3) by (auto simp: cl'_def)
  have g: "\<forall>k \<in> set ks. assignable (kind cl') k"
    using Cons.prems(4) by (simp add: cl'_def assignable_grow)
  from Cons.IH [OF d i g] a rs show ?case by (simp add: write_item_def cl'_def)
qed

lemma writes_define:
  "distinct ks \<Longrightarrow> length rs = length ks \<Longrightarrow> set ks \<inter> fst ` set (props cl) = {}
   \<Longrightarrow> \<forall>k \<in> set ks. definable (kind cl) k
   \<Longrightarrow> writes cl (zip (map (\<lambda>k. WDefine k (dsc k)) ks) rs)
     = Inr (cl\<lparr>kind := foldl (\<lambda>kd k. grow k kd) (kind cl) ks,
               props := props cl @ map (\<lambda>(k, r). (k, (dsc k)\<lparr>pvalue := r\<rparr>)) (zip ks rs)\<rparr>)"
proof (induction ks arbitrary: cl rs)
  case Nil
  then show ?case by simp
next
  case (Cons k ks)
  from Cons.prems(2) obtain r rs' where rs: "rs = r # rs'" by (cases rs) auto
  from Cons.prems(3) have nk: "k \<notin> fst ` set (props cl)" by auto
  define cl' where
    "cl' = cl\<lparr>kind := grow k (kind cl), props := props cl @ [(k, (dsc k)\<lparr>pvalue := r\<rparr>)]\<rparr>"
  from Cons.prems(4) have "definable (kind cl) k" by simp
  with nk have a: "defineProperty cl k ((dsc k)\<lparr>pvalue := r\<rparr>) = Inr cl'"
    unfolding cl'_def by (rule define_new)
  have d: "distinct ks" "length rs' = length ks" using Cons.prems(1,2) rs by auto
  have i: "set ks \<inter> fst ` set (props cl') = {}" using Cons.prems(1,3) by (auto simp: cl'_def)
  have g: "\<forall>k \<in> set ks. definable (kind cl') k"
    using Cons.prems(4) by (simp add: cl'_def definable_grow)
  from Cons.IH [OF d i g] a rs show ?case by (simp add: write_item_def cl'_def)
qed

lemma map_set_new: "k \<notin> fst ` set es \<Longrightarrow> map_set k v es = es @ [(k, v)]"
  by (simp add: map_set_def)

lemma writes_mapset:
  "distinct ks \<Longrightarrow> length rs = length ks \<Longrightarrow> kind cl = MapK es \<Longrightarrow> set ks \<inter> fst ` set es = {}
   \<Longrightarrow> writes cl (zip (map WMapSet ks) rs) = Inr (cl\<lparr>kind := MapK (es @ zip ks rs)\<rparr>)"
proof (induction ks arbitrary: cl rs es)
  case Nil
  then show ?case by simp
next
  case (Cons k ks)
  from Cons.prems(2) obtain r rs' where rs: "rs = r # rs'" by (cases rs) auto
  from Cons.prems(4) have nk: "k \<notin> fst ` set es" by auto
  define cl' where "cl' = cl\<lparr>kind := MapK (es @ [(k, r)])\<rparr>"
  have k': "kind cl' = MapK (es @ [(k, r)])" by (simp add: cl'_def)
  have d: "distinct ks" "length rs' = length ks" using Cons.prems(1,2) rs by auto
  have i: "set ks \<inter> fst ` set (es @ [(k, r)]) = {}" using Cons.prems(1,4) by auto
  from Cons.IH [OF d k' i] Cons.prems(3) rs nk show ?case
    by (simp add: write_item_def cl'_def map_set_new)
qed

lemma writes_setadd_total:
  "kind cl = SetK ms \<Longrightarrow> \<exists>final. writes cl (map (\<lambda>r. (WSetAdd, r)) rs) = Inr final"
proof (induction rs arbitrary: cl ms)
  case Nil
  then show ?case by simp
next
  case (Cons r rs)
  define cl' where "cl' = cl\<lparr>kind := SetK (set_add r ms)\<rparr>"
  have "kind cl' = SetK (set_add r ms)" by (simp add: cl'_def)
  from Cons.IH [OF this] Cons.prems show ?case by (simp add: write_item_def cl'_def)
qed

lemma writes_setadd:
  "distinct rs \<Longrightarrow> kind cl = SetK ms \<Longrightarrow> set rs \<inter> set ms = {}
   \<Longrightarrow> writes cl (map (\<lambda>r. (WSetAdd, r)) rs) = Inr final
   \<Longrightarrow> kind final = SetK (ms @ rs)"
proof (induction rs arbitrary: cl ms)
  case Nil
  then show ?case by simp
next
  case (Cons r rs)
  define cl' where "cl' = cl\<lparr>kind := SetK (ms @ [r])\<rparr>"
  from Cons.prems(2,3,4) have w: "writes cl' (map (\<lambda>r. (WSetAdd, r)) rs) = Inr final"
    by (simp add: write_item_def cl'_def set_add_def)
  have k': "kind cl' = SetK (ms @ [r])" by (simp add: cl'_def)
  have i: "set rs \<inter> set (ms @ [r]) = {}" using Cons.prems(1,3) by auto
  from Cons.IH [OF _ k' i w] Cons.prems(1) show ?case by simp
qed

lemma grow_index: "foldl (\<lambda>kd k. grow k kd) (ArrayK 0) (map KIdx [0..<n]) = ArrayK n"
  by (induction n) (simp_all add: grow_def)

lemma grow_ordinary: "foldl (\<lambda>kd k. grow k kd) (Ordinary p) ks = Ordinary p"
  by (induction ks) (simp_all add: grow_def)

lemma grow_bounded:
  "m \<le> n \<Longrightarrow> \<forall>k \<in> set ks. \<forall>i. k = KIdx i \<longrightarrow> i < n
   \<Longrightarrow> \<exists>m' \<le> n. foldl (\<lambda>kd k. grow k kd) (ArrayK m) ks = ArrayK m'"
proof (induction ks arbitrary: m)
  case Nil
  then show ?case by simp
next
  case (Cons k ks)
  show ?case
  proof (cases k)
    case (KIdx i)
    with Cons.prems have "max m (Suc i) \<le> n" by simp
    from Cons.IH [OF this] Cons.prems(2) KIdx show ?thesis by (simp add: grow_def)
  qed (use Cons in \<open>simp_all add: grow_def\<close>)
qed

lemma grow_other:
  "\<forall>k \<in> set ks. \<not> is_idx k \<Longrightarrow> foldl (\<lambda>kd k. grow k kd) kd ks = kd"
proof (induction ks)
  case Nil
  then show ?case by simp
next
  case (Cons k ks)
  then show ?case by (cases k; cases kd) (simp_all add: grow_def is_idx_def)
qed

lemma defined_props:
  assumes p: "props final = map (\<lambda>(k, r). (k, (dsc k)\<lparr>pvalue := r\<rparr>)) (zip ks rs)"
    and d: "distinct ks" and l: "length rs = length ks"
  shows "own_enumerable_keys final = {k \<in> set ks. enumerable (dsc k)}"
    and "\<And>i. i < length ks \<Longrightarrow> get_own final (ks ! i) = rs ! i"
    and "\<And>k. k \<notin> set ks \<Longrightarrow> own_prop final k = None"
proof -
  let ?vs = "map (\<lambda>(k, r). (dsc k)\<lparr>pvalue := r\<rparr>) (zip ks rs)"
  have "map (\<lambda>(k, r). (k, (dsc k)\<lparr>pvalue := r\<rparr>)) (zip ks rs) = zip ks ?vs"
    using l [symmetric] by (induction ks rs rule: list_induct2) simp_all
  with p have z: "props final = zip ks ?vs" by simp
  have lv: "length ?vs = length ks" using l by simp
  have n: "map_of (props final) (ks ! i) = Some ((dsc (ks ! i))\<lparr>pvalue := rs ! i\<rparr>)"
    if "i < length ks" for i
  proof -
    from that d lv have "map_of (zip ks ?vs) (ks ! i) = Some (?vs ! i)"
      by (simp add: map_of_zip_nth)
    with that l z show ?thesis by simp
  qed
  have dm: "dom (map_of (props final)) = set ks"
    unfolding z using lv by (simp add: dom_map_of_zip)
  show "\<And>i. i < length ks \<Longrightarrow> get_own final (ks ! i) = rs ! i"
    using n by (simp add: get_own_def own_prop_def)
  show "\<And>k. k \<notin> set ks \<Longrightarrow> own_prop final k = None"
    using dm by (auto simp: own_prop_def)
  show "own_enumerable_keys final = {k \<in> set ks. enumerable (dsc k)}"
  proof (intro set_eqI iffI)
    fix k assume k: "k \<in> own_enumerable_keys final"
    then obtain q where q: "map_of (props final) k = Some q" "enumerable q"
      by (auto simp: own_enumerable_keys_def)
    with dm have "k \<in> set ks" by auto
    then obtain i where i: "i < length ks" "k = ks ! i" by (auto simp: in_set_conv_nth)
    with n [of i] q have "enumerable (dsc k)" by auto
    with \<open>k \<in> set ks\<close> show "k \<in> {k \<in> set ks. enumerable (dsc k)}" by simp
  next
    fix k assume "k \<in> {k \<in> set ks. enumerable (dsc k)}"
    then have ks: "k \<in> set ks" and e: "enumerable (dsc k)" by simp_all
    from ks obtain i where i: "i < length ks" "k = ks ! i" by (auto simp: in_set_conv_nth)
    with n [of i] e show "k \<in> own_enumerable_keys final"
      by (auto simp: own_enumerable_keys_def)
  qed
qed

lemma assigned_props:
  assumes p: "props final = map (\<lambda>(k, r). (k, data_prop r)) (zip ks rs)"
    and d: "distinct ks" and l: "length rs = length ks"
  shows "own_enumerable_keys final = set ks"
    and "\<And>i. i < length ks \<Longrightarrow> get_own final (ks ! i) = rs ! i"
    and "\<And>k. k \<notin> set ks \<Longrightarrow> own_prop final k = None"
proof -
  have "props final = map (\<lambda>(k, r). (k, (data_prop Undefined)\<lparr>pvalue := r\<rparr>)) (zip ks rs)"
    using p by (simp add: data_prop_def)
  note dp = defined_props [of final "\<lambda>k. data_prop Undefined", OF this d l]
  show "own_enumerable_keys final = set ks" using dp(1) by (simp add: data_prop_def)
  show "\<And>i. i < length ks \<Longrightarrow> get_own final (ks ! i) = rs ! i" by (rule dp(2))
  show "\<And>k. k \<notin> set ks \<Longrightarrow> own_prop final k = None" by (rule dp(3))
qed

lemma reads_loose:
  "reads ob (loose_items ob) = map (\<lambda>k. (get_own ob k, WAssign k)) (loose_keys ob)"
  by (simp add: loose_items_def loose_keys_def reads_append reads_Assign reads_AssignSym)

lemma loose_keys_filter:
  "loose_keys ob = map fst (filter (\<lambda>(k, p). \<not> is_sym k \<and> enumerable p) (props ob))
     @ map fst (filter (\<lambda>(k, p). is_sym k \<and> enumerable p) (props ob))" if "distinct (map fst (props ob))"
proof -
  have "filter (propertyIsEnumerable ob) (filter is_sym (map fst ps))
      = map fst (filter (\<lambda>(k, p). is_sym k \<and> enumerable p) ps)"
    if "set ps \<subseteq> set (props ob)" for ps
    using that
  proof (induction ps)
    case Nil
    then show ?case by simp
  next
    case (Cons kp ps)
    obtain k p where kp: "kp = (k, p)" by (cases kp)
    with Cons.prems have "(k, p) \<in> set (props ob)" by simp
    with \<open>distinct (map fst (props ob))\<close> have "map_of (props ob) k = Some p" by simp
    then have "propertyIsEnumerable ob k = enumerable p"
      by (simp add: propertyIsEnumerable_def own_prop_def)
    with Cons kp show ?case by simp
  qed
  then show ?thesis
    by (simp add: loose_keys_def for_in_own_keys_def getOwnPropertySymbols_def)
qed

lemma loose_keys_distinct:
  assumes "distinct (map fst (props ob))"
  shows "distinct (loose_keys ob)"
proof -
  let ?a = "map fst (filter (\<lambda>(k, p). \<not> is_sym k \<and> enumerable p) (props ob))"
  let ?b = "map fst (filter (\<lambda>(k, p). is_sym k \<and> enumerable p) (props ob))"
  have d: "distinct ?a" "distinct ?b" using assms by (simp_all add: distinct_map_filter)
  have na: "\<not> is_sym k" if "k \<in> set ?a" for k using that by auto
  have nb: "is_sym k" if "k \<in> set ?b" for k using that by auto
  have "set ?a \<inter> set ?b = {}"
  proof (rule equals0I)
    fix k assume k: "k \<in> set ?a \<inter> set ?b"
    from k have "k \<in> set ?a" by (rule IntD1)
    then have "\<not> is_sym k" by (rule na)
    moreover from k have "k \<in> set ?b" by (rule IntD2)
    then have "is_sym k" by (rule nb)
    ultimately show False by (rule notE)
  qed
  with d have "distinct (?a @ ?b)" by (simp only: distinct_append simp_thms)
  then show ?thesis by (simp only: loose_keys_filter [OF assms])
qed

lemma loose_keys_set:
  assumes "distinct (map fst (props ob))"
  shows "set (loose_keys ob) = own_enumerable_keys ob"
proof -
  have m: "(\<exists>p. map_of (props ob) k = Some p \<and> enumerable p)
      \<longleftrightarrow> (\<exists>p. (k, p) \<in> set (props ob) \<and> enumerable p)" for k
    using assms by auto
  have "k \<in> set (loose_keys ob) \<longleftrightarrow> (\<exists>p. (k, p) \<in> set (props ob) \<and> enumerable p)" for k
  proof
    assume "k \<in> set (loose_keys ob)"
    then show "\<exists>p. (k, p) \<in> set (props ob) \<and> enumerable p"
      by (simp only: loose_keys_filter [OF assms]) auto
  next
    assume "\<exists>p. (k, p) \<in> set (props ob) \<and> enumerable p"
    then obtain p where p: "(k, p) \<in> set (props ob)" "enumerable p" by blast
    show "k \<in> set (loose_keys ob)"
    proof (cases "is_sym k")
      case True
      with p have "(k, p) \<in> set (filter (\<lambda>(k, p). is_sym k \<and> enumerable p) (props ob))"
        by simp
      then have "k \<in> fst ` set (filter (\<lambda>(k, p). is_sym k \<and> enumerable p) (props ob))"
        by (rule image_eqI [rotated]) simp
      then show ?thesis by (simp only: loose_keys_filter [OF assms] set_append set_map) simp
    next
      case False
      with p have "(k, p) \<in> set (filter (\<lambda>(k, p). \<not> is_sym k \<and> enumerable p) (props ob))"
        by simp
      then have "k \<in> fst ` set (filter (\<lambda>(k, p). \<not> is_sym k \<and> enumerable p) (props ob))"
        by (rule image_eqI [rotated]) simp
      then show ?thesis by (simp only: loose_keys_filter [OF assms] set_append set_map) simp
    qed
  qed
  with m show ?thesis by (auto simp: own_enumerable_keys_def)
qed

lemma loose_clone_equal:
  assumes reg: "regular_obj False ob" and k: "kind ob = Ordinary p"
    and l: "length rs = length (reads ob (loose_items ob))"
  shows "\<exists>final. writes (empty_obj (Ordinary p)) (zip (map snd (reads ob (loose_items ob))) rs)
        = Inr final
      \<and> (list_all2 R rs (map fst (reads ob (loose_items ob))) \<longrightarrow> obj_equal R h final ob)"
proof -
  let ?ks = "loose_keys ob"
  let ?final = "(empty_obj (Ordinary p))\<lparr>kind := foldl (\<lambda>kd k. grow k kd) (Ordinary p) ?ks,
      props := map (\<lambda>(k, r). (k, data_prop r)) (zip ?ks rs)\<rparr>"
  from reg have dp: "distinct (map fst (props ob))"
    and nc: "own_prop ob (KStr ''constructor'') = None"
    and np: "own_prop ob (KStr ''__proto__'') = None"
    by (simp_all add: regular_obj_def)
  have d: "distinct ?ks" using dp by (rule loose_keys_distinct)
  have st: "set ?ks = own_enumerable_keys ob" using dp by (rule loose_keys_set)
  from l have l': "length rs = length ?ks" by (simp add: reads_loose)
  have e: "set ?ks \<inter> fst ` set (props (empty_obj (Ordinary p))) = {}"
    by (simp add: empty_obj_def)
  have "KStr ''__proto__'' \<notin> set ?ks"
    using np st by (auto simp: own_enumerable_keys_def own_prop_def)
  then have asg: "\<forall>k \<in> set ?ks. assignable (kind (empty_obj (Ordinary p))) k"
    by (auto simp: assignable_def empty_obj_def)
  from writes_assign [OF d l' e asg]
  have w: "writes (empty_obj (Ordinary p)) (zip (map snd (reads ob (loose_items ob))) rs)
      = Inr ?final"
    by (simp add: reads_loose comp_def empty_obj_def)
  have pf: "props ?final = map (\<lambda>(k, r). (k, data_prop r)) (zip ?ks rs)"
    and kf: "kind ?final = Ordinary p"
    by (simp_all add: grow_ordinary)
  note ap = assigned_props [OF pf d l']
  have "obj_equal R h ?final ob" if rs: "list_all2 R rs (map fst (reads ob (loose_items ob)))"
  proof -
    from rs have rs': "list_all2 R rs (map (get_own ob) ?ks)"
      by (simp add: reads_loose comp_def)
    have "KStr ''constructor'' \<notin> set ?ks"
      using nc st by (auto simp: own_enumerable_keys_def own_prop_def)
    then have "own_prop ?final (KStr ''constructor'') = None" by (rule ap(3))
    with nc kf k have c: "get_constructor ?final = get_constructor ob"
      by (simp add: get_constructor_def)
    have v: "R (get_own ?final k') (get_own ob k')" if "k' \<in> set ?ks" for k'
    proof -
      from that obtain i where i: "i < length ?ks" "k' = ?ks ! i" by (auto simp: in_set_conv_nth)
      with rs' l' have "R (rs ! i) (get_own ob (?ks ! i))" by (auto simp: list_all2_conv_all_nth)
      with i ap(2) show ?thesis by simp
    qed
    from c v ap(1) st kf k show ?thesis by (simp add: obj_equal_def)
  qed
  with w show ?thesis by blast
qed

lemma array_clone_equal:
  assumes k: "kind ob = ArrayK n"
    and l: "length rs = length (reads ob (map (\<lambda>index. Assign (KIdx index)) [0..<n]))"
  shows "\<exists>final. writes (empty_obj (ArrayK 0))
        (zip (map snd (reads ob (map (\<lambda>index. Assign (KIdx index)) [0..<n]))) rs) = Inr final
      \<and> (list_all2 R rs (map fst (reads ob (map (\<lambda>index. Assign (KIdx index)) [0..<n])))
           \<longrightarrow> obj_equal R h final ob)"
proof -
  let ?ks = "map KIdx [0..<n]"
  let ?final = "(empty_obj (ArrayK 0))\<lparr>kind := foldl (\<lambda>kd k. grow k kd) (ArrayK 0) ?ks,
      props := map (\<lambda>(k, r). (k, data_prop r)) (zip ?ks rs)\<rparr>"
  have m: "map (\<lambda>index. Assign (KIdx index)) [0..<n] = map Assign ?ks" by simp
  have d: "distinct ?ks" by (simp add: distinct_map inj_on_def)
  from l have l': "length rs = length ?ks" unfolding m reads_Assign by simp
  have e: "set ?ks \<inter> fst ` set (props (empty_obj (ArrayK 0))) = {}"
    by (simp add: empty_obj_def)
  have asg: "\<forall>k \<in> set ?ks. assignable (kind (empty_obj (ArrayK 0))) k"
    by (auto simp: assignable_def empty_obj_def is_idx_def)
  from writes_assign [OF d l' e asg]
  have w: "writes (empty_obj (ArrayK 0))
      (zip (map snd (reads ob (map (\<lambda>index. Assign (KIdx index)) [0..<n]))) rs) = Inr ?final"
    unfolding m reads_Assign by (simp add: comp_def empty_obj_def)
  have pf: "props ?final = map (\<lambda>(k, r). (k, data_prop r)) (zip ?ks rs)"
    and kf: "kind ?final = ArrayK n"
    by (simp_all only: grow_index) simp_all
  note ap = assigned_props [OF pf d l']
  have "obj_equal R h ?final ob"
    if rs: "list_all2 R rs (map fst (reads ob (map (\<lambda>index. Assign (KIdx index)) [0..<n])))"
  proof -
    from rs have rs': "list_all2 R rs (map (get_own ob) ?ks)"
      unfolding m reads_Assign by (simp add: comp_def)
    have "R (get_own ?final (KIdx i)) (get_own ob (KIdx i))" if "i < n" for i
    proof -
      from that have i: "i < length ?ks" "?ks ! i = KIdx i" by simp_all
      with rs' l' have "R (rs ! i) (get_own ob (?ks ! i))"
        by (simp add: list_all2_conv_all_nth)
      with i ap(2) [of i] show ?thesis by simp
    qed
    with kf k show ?thesis by (simp add: obj_equal_def)
  qed
  with w show ?thesis by blast
qed

lemma map_clone_equal:
  assumes k: "kind ob = MapK es" and d: "distinct (map fst es)"
    and rs: "list_all2 R rs (map fst (reads ob (map (\<lambda>(key, value). Entry key value) es)))"
    and w: "writes (empty_obj (MapK []))
        (zip (map snd (reads ob (map (\<lambda>(key, value). Entry key value) es))) rs) = Inr final"
  shows "obj_equal R h final ob"
proof -
  let ?ks = "map fst es"
  have f: "map fst (map (\<lambda>(k, v). (v, WMapSet k)) es) = map snd es"
    by (induction es) auto
  have g: "map snd (map (\<lambda>(k, v). (v, WMapSet k)) es) = map WMapSet ?ks"
    by (induction es) auto
  from rs have rs': "list_all2 R rs (map snd es)" by (simp only: reads_Entry f)
  then have l: "length rs = length ?ks" by (auto dest: list_all2_lengthD)
  from w have w': "writes (empty_obj (MapK [])) (zip (map WMapSet ?ks) rs) = Inr final"
    by (simp only: reads_Entry g)
  have "writes (empty_obj (MapK [])) (zip (map WMapSet ?ks) rs)
      = Inr ((empty_obj (MapK []))\<lparr>kind := MapK ([] @ zip ?ks rs)\<rparr>)"
    by (rule writes_mapset [OF d l]) (simp_all add: empty_obj_def)
  with w' have kf: "kind final = MapK (zip ?ks rs)" by auto
  have n: "R (rs ! i) (snd (es ! i))" if "i < length es" for i
    using rs' that by (auto simp: list_all2_conv_all_nth)
  have a: "\<exists>v'. (k', v') \<in> set es \<and> R v v'" if "(k', v) \<in> set (zip ?ks rs)" for k' v
  proof -
    from that obtain i where i: "i < length es" "k' = fst (es ! i)" "v = rs ! i"
      using l by (auto simp: in_set_zip)
    from i(1) have "es ! i \<in> set es" by (rule nth_mem)
    moreover from i(2) have "es ! i = (k', snd (es ! i))" by simp
    ultimately have "(k', snd (es ! i)) \<in> set es" by simp
    moreover from n [OF i(1)] i(3) have "R v (snd (es ! i))" by simp
    ultimately show ?thesis by (rule_tac x = "snd (es ! i)" in exI) simp
  qed
  have b: "\<exists>v. (k', v) \<in> set (zip ?ks rs) \<and> R v v'" if "(k', v') \<in> set es" for k' v'
  proof -
    from that obtain i where i: "i < length es" "es ! i = (k', v')" by (auto simp: in_set_conv_nth)
    from i(1) l have "zip ?ks rs ! i \<in> set (zip ?ks rs)" by (intro nth_mem) simp
    moreover from i l have "zip ?ks rs ! i = (k', rs ! i)" by simp
    ultimately have "(k', rs ! i) \<in> set (zip ?ks rs)" by simp
    moreover from n [OF i(1)] i(2) have "R (rs ! i) v'" by simp
    ultimately show ?thesis by (rule_tac x = "rs ! i" in exI) simp
  qed
  from kf k l show ?thesis
    using a b by (simp add: obj_equal_def split_def)
qed

lemma set_clone_equal:
  assumes k: "kind ob = SetK ms" and d: "distinct rs"
    and rs: "list_all2 R rs (map fst (reads ob (map Member ms)))"
    and w: "writes (empty_obj (SetK [])) (zip (map snd (reads ob (map Member ms))) rs) = Inr final"
  shows "obj_equal R h final ob"
proof -
  from rs have rs': "list_all2 R rs ms" by (simp add: reads_Member comp_def)
  then have l: "length rs = length ms" by (rule list_all2_lengthD)
  have "zip (map (\<lambda>v. WSetAdd) ms) rs = map (\<lambda>r. (WSetAdd, r)) rs"
    using l [symmetric] by (induction ms rs rule: list_induct2) simp_all
  then have z: "zip (map snd (reads ob (map Member ms))) rs = map (\<lambda>r. (WSetAdd, r)) rs"
    by (simp add: reads_Member comp_def)
  from w have w': "writes (empty_obj (SetK [])) (map (\<lambda>r. (WSetAdd, r)) rs) = Inr final"
    by (simp only: z)
  have "kind final = SetK ([] @ rs)"
    by (rule writes_setadd [OF d _ _ w']) (simp_all add: empty_obj_def)
  with k rs' show ?thesis by (auto simp: obj_equal_def)
qed

lemma own_key_descriptor:
  assumes "distinct (map fst (props ob))" and "k \<in> fst ` set (props ob)"
  shows "\<exists>q. map_of (props ob) k = Some q \<and> getOwnPropertyDescriptor ob k = Some q
      \<and> descriptor ob k = q \<and> get_own ob k = pvalue q"
proof -
  from assms(2) obtain q where "map_of (props ob) k = Some q"
    by (cases "map_of (props ob) k") (auto simp: map_of_eq_None_iff)
  then show ?thesis
    by (simp add: getOwnPropertyDescriptor_def descriptor_def own_prop_def get_own_def)
qed

lemma strict_keys_ordinary:
  assumes "kind ob = Ordinary p"
  shows "strict_keys ob = filter (\<lambda>k. \<not> is_sym k) (map fst (props ob))
      @ filter is_sym (map fst (props ob))"
  using assms by (simp add: strict_keys_def getOwnPropertyNames_def getOwnPropertySymbols_def)

lemma strict_keys_array:
  assumes "kind ob = ArrayK n"
  shows "strict_keys ob = index_keys ob @ [KStr ''length''] @ other_keys ob"
  using assms
  by (simp add: strict_keys_def getOwnPropertyNames_def getOwnPropertySymbols_def
      index_keys_def other_keys_def)

lemma array_keys:
  assumes "distinct (map fst (props ob))"
  shows "distinct (index_keys ob @ other_keys ob)"
    and "set (index_keys ob @ other_keys ob) = fst ` set (props ob)"
    and "\<forall>k \<in> set (other_keys ob). \<not> is_idx k"
    and "\<And>i. KIdx i \<in> fst ` set (props ob) \<Longrightarrow> KIdx i \<in> set (index_keys ob)"
proof -
  show "distinct (index_keys ob @ other_keys ob)"
    using assms by (auto simp: index_keys_def other_keys_def getOwnPropertySymbols_def)
  show "set (index_keys ob @ other_keys ob) = fst ` set (props ob)"
    by (auto simp: index_keys_def other_keys_def getOwnPropertySymbols_def)
  show "\<forall>k \<in> set (other_keys ob). \<not> is_idx k"
    by (auto simp: other_keys_def getOwnPropertySymbols_def is_idx_def is_sym_def
        split: pkey.splits)
  show "\<And>i. KIdx i \<in> fst ` set (props ob) \<Longrightarrow> KIdx i \<in> set (index_keys ob)"
    by (auto simp: index_keys_def is_idx_def is_sym_def)
qed

lemma ordinary_keys:
  assumes "distinct (map fst (props ob))" and "kind ob = Ordinary p"
  shows "distinct (strict_keys ob)" and "set (strict_keys ob) = fst ` set (props ob)"
  using assms by (auto simp: strict_keys_ordinary)

lemma strict_enumerable:
  assumes d: "distinct (map fst (props ob))" and s: "set ks = fst ` set (props ob)"
  shows "{k \<in> set ks. enumerable (descriptor ob k)} = own_enumerable_keys ob"
proof (intro set_eqI iffI)
  fix k assume "k \<in> {k \<in> set ks. enumerable (descriptor ob k)}"
  then have k: "k \<in> fst ` set (props ob)" and e: "enumerable (descriptor ob k)"
    using s by simp_all
  from own_key_descriptor [OF d k] e show "k \<in> own_enumerable_keys ob"
    by (auto simp: own_enumerable_keys_def)
next
  fix k assume "k \<in> own_enumerable_keys ob"
  then obtain q where q: "map_of (props ob) k = Some q" "enumerable q"
    by (auto simp: own_enumerable_keys_def)
  then have k: "k \<in> fst ` set (props ob)" by (auto dest: map_of_SomeD intro: rev_image_eqI)
  from own_key_descriptor [OF d k] q have "enumerable (descriptor ob k)" by auto
  with k s show "k \<in> {k \<in> set ks. enumerable (descriptor ob k)}" by simp
qed

lemma strict_reads:
  assumes reg: "regular_obj True ob"
    and s: "set ks \<subseteq> fst ` set (props ob)
        \<or> (\<exists>n. kind ob = ArrayK n \<and> set ks \<subseteq> insert (KStr ''length'') (fst ` set (props ob)))"
  shows "reads ob (map Define ks) = map (\<lambda>k. (get_own ob k, WDefine k (descriptor ob k))) ks"
proof (rule reads_Define, rule ballI)
  fix k assume k: "k \<in> set ks"
  from reg have d: "distinct (map fst (props ob))"
    and c: "own_prop ob (KStr ''callee'') = None" "own_prop ob (KStr ''caller'') = None"
    by (simp_all add: regular_obj_def)
  from c have nk: "KStr ''callee'' \<notin> fst ` set (props ob)" "KStr ''caller'' \<notin> fst ` set (props ob)"
    by (simp_all add: own_prop_def map_of_eq_None_iff)
  show "k \<noteq> KStr ''callee'' \<and> k \<noteq> KStr ''caller'' \<and> getOwnPropertyDescriptor ob k \<noteq> None"
  proof (cases "k \<in> fst ` set (props ob)")
    case True
    with nk have "k \<noteq> KStr ''callee''" "k \<noteq> KStr ''caller''" by blast+
    moreover from own_key_descriptor [OF d True]
    have "getOwnPropertyDescriptor ob k \<noteq> None" by auto
    ultimately show ?thesis by simp
  next
    case False
    with s k obtain n where "kind ob = ArrayK n" "k = KStr ''length''" by auto
    then show ?thesis by (simp add: getOwnPropertyDescriptor_def split: option.splits)
  qed
qed

lemma strict_clone_equal:
  assumes reg: "regular_obj True ob" and k: "kind ob = Ordinary p"
    and l: "length rs = length (reads ob (strict_items ob))"
  shows "\<exists>final. writes (empty_obj (Ordinary p)) (zip (map snd (reads ob (strict_items ob))) rs)
        = Inr final
      \<and> (list_all2 R rs (map fst (reads ob (strict_items ob))) \<longrightarrow> obj_equal R h final ob)"
proof -
  let ?ks = "strict_keys ob"
  let ?final = "(empty_obj (Ordinary p))\<lparr>kind := foldl (\<lambda>kd k. grow k kd) (Ordinary p) ?ks,
      props := map (\<lambda>(k, r). (k, (descriptor ob k)\<lparr>pvalue := r\<rparr>)) (zip ?ks rs)\<rparr>"
  from reg have dp: "distinct (map fst (props ob))"
    and nc: "own_prop ob (KStr ''constructor'') = None"
    by (simp_all add: regular_obj_def)
  note ok = ordinary_keys [OF dp k]
  have rd: "reads ob (strict_items ob)
      = map (\<lambda>k. (get_own ob k, WDefine k (descriptor ob k))) ?ks"
    unfolding strict_items_def strict_keys_def [symmetric]
    by (rule strict_reads [OF reg]) (simp add: ok(2))
  from l have l': "length rs = length ?ks" by (simp add: rd)
  have e: "set ?ks \<inter> fst ` set (props (empty_obj (Ordinary p))) = {}"
    by (simp add: empty_obj_def)
  have dfn: "\<forall>k \<in> set ?ks. definable (kind (empty_obj (Ordinary p))) k"
    by (simp add: definable_def empty_obj_def)
  from writes_define [OF ok(1) l' e dfn, of "descriptor ob"]
  have w: "writes (empty_obj (Ordinary p)) (zip (map snd (reads ob (strict_items ob))) rs)
      = Inr ?final"
    by (simp add: rd comp_def empty_obj_def)
  have pf: "props ?final = map (\<lambda>(k, r). (k, (descriptor ob k)\<lparr>pvalue := r\<rparr>)) (zip ?ks rs)"
    and kf: "kind ?final = Ordinary p"
    by (simp_all add: grow_ordinary)
  note ap = defined_props [OF pf ok(1) l']
  have en: "own_enumerable_keys ?final = own_enumerable_keys ob"
    unfolding ap(1) using dp ok(2) by (rule strict_enumerable)
  have "obj_equal R h ?final ob" if rs: "list_all2 R rs (map fst (reads ob (strict_items ob)))"
  proof -
    from rs have rs': "list_all2 R rs (map (get_own ob) ?ks)"
      by (simp add: rd comp_def)
    have "KStr ''constructor'' \<notin> set ?ks"
      using nc ok(2) by (simp add: own_prop_def map_of_eq_None_iff)
    then have "own_prop ?final (KStr ''constructor'') = None" by (rule ap(3))
    with nc kf k have c: "get_constructor ?final = get_constructor ob"
      by (simp add: get_constructor_def)
    have v: "R (get_own ?final k') (get_own ob k')" if "k' \<in> set ?ks" for k'
    proof -
      from that obtain i where i: "i < length ?ks" "k' = ?ks ! i" by (auto simp: in_set_conv_nth)
      with rs' l' have "R (rs ! i) (get_own ob (?ks ! i))" by (auto simp: list_all2_conv_all_nth)
      with i ap(2) show ?thesis by simp
    qed
    have v': "R (get_own ?final k') (get_own ob k')" if "k' \<in> own_enumerable_keys ob" for k'
    proof -
      from that have "k' \<in> set ?ks"
        unfolding ok(2) by (auto simp: own_enumerable_keys_def dest: map_of_SomeD intro: rev_image_eqI)
      then show ?thesis by (rule v)
    qed
    from c v' en kf k show ?thesis by (simp add: obj_equal_def)
  qed
  with w show ?thesis by blast
qed

lemma array_length_descriptor:
  assumes "kind ob = ArrayK n" and "own_prop ob (KStr ''length'') = None"
  shows "descriptor ob (KStr ''length'')
      = \<lparr>pvalue = Num (int n), enumerable = False, writable = True, configurable = False\<rparr>"
    and "get_own ob (KStr ''length'') = Num (int n)"
  using assms by (simp_all add: descriptor_def getOwnPropertyDescriptor_def get_own_def)

lemma define_length:
  assumes "kind cl = ArrayK m" and "m \<le> n" and "n < 4294967296"
    and "\<not> enumerable d" and "\<not> configurable d"
  shows "defineProperty cl (KStr ''length'') (d\<lparr>pvalue := Num (int n)\<rparr>)
      = Inr (cl\<lparr>kind := ArrayK n\<rparr>)"
  using assms by (simp add: defineProperty_def Let_def)

lemma zip_keys: "fst ` set (map (\<lambda>(k, r). (k, f k r)) (zip ks rs)) \<subseteq> set ks"
  by (auto dest: set_zip_leftD)

lemma strict_array_clone_equal:
  assumes reg: "regular_obj True ob" and k: "kind ob = ArrayK n"
    and ag: "agree rs (reads ob (strict_items ob))"
  shows "\<exists>final. writes (empty_obj (ArrayK 0)) (zip (map snd (reads ob (strict_items ob))) rs)
        = Inr final
      \<and> (list_all2 R rs (map fst (reads ob (strict_items ob))) \<and> R Undefined Undefined
           \<longrightarrow> obj_equal R h final ob)"
proof -
  let ?k1 = "index_keys ob" and ?k2 = "other_keys ob" and ?L = "KStr ''length''"
  let ?W = "\<lambda>k. WDefine k (descriptor ob k)"
  let ?E = "empty_obj (ArrayK 0)"
  let ?P = "\<lambda>ks rs. map (\<lambda>(k, r). (k, (descriptor ob k)\<lparr>pvalue := r\<rparr>)) (zip ks rs)"
  from reg k have dp: "distinct (map fst (props ob))"
    and nl: "own_prop ob ?L = None"
    and bd: "\<forall>i. own_prop ob (KIdx i) \<noteq> None \<longrightarrow> i < n"
    and n32: "n < 4294967296"
    by (simp_all add: regular_obj_def)
  note ak = array_keys [OF dp]
  note ld = array_length_descriptor [OF k nl]
  have Lk: "?L \<notin> fst ` set (props ob)" using nl by (simp add: own_prop_def map_of_eq_None_iff)
  have rd: "reads ob (strict_items ob) = map (\<lambda>k. (get_own ob k, ?W k)) (?k1 @ [?L] @ ?k2)"
    unfolding strict_items_def strict_keys_def [symmetric] strict_keys_array [OF k]
  proof (rule strict_reads [OF reg])
    have "set (?k1 @ ?k2) = fst ` set (props ob)" by (rule ak(2))
    then have "set (?k1 @ [?L] @ ?k2) \<subseteq> insert ?L (fst ` set (props ob))" by auto
    with k show "set (?k1 @ [?L] @ ?k2) \<subseteq> fst ` set (props ob)
        \<or> (\<exists>n. kind ob = ArrayK n \<and> set (?k1 @ [?L] @ ?k2) \<subseteq> insert ?L (fst ` set (props ob)))"
      by blast
  qed
  from ag have l: "length rs = length ?k1 + 1 + length ?k2"
    unfolding agree_def rd by (auto dest: list_all2_lengthD)
  define rs1 where "rs1 = take (length ?k1) rs"
  define rl where "rl = rs ! length ?k1"
  define rs2 where "rs2 = drop (Suc (length ?k1)) rs"
  have "length ?k1 < length rs" using l by simp
  then have rs: "rs = rs1 @ [rl] @ rs2"
    unfolding rs1_def rl_def rs2_def by (simp add: id_take_nth_drop [symmetric])
  have l1: "length rs1 = length ?k1" and l2: "length rs2 = length ?k2"
    using l by (simp_all add: rs1_def rs2_def)
  have rlv: "rl = Num (int n)"
  proof -
    let ?rds = "map (\<lambda>k. (get_own ob k, ?W k)) (?k1 @ [?L] @ ?k2)"
    from ag have "list_all2 (\<lambda>r cw. (\<forall>a. fst cw \<noteq> Ref a) \<longrightarrow> r = fst cw) rs ?rds"
      by (simp only: agree_def rd)
    moreover have "length ?k1 < length rs" using l by simp
    ultimately have "(\<forall>a. fst (?rds ! length ?k1) \<noteq> Ref a)
        \<longrightarrow> rs ! length ?k1 = fst (?rds ! length ?k1)"
      by (rule list_all2_nthD)
    moreover have "?rds ! length ?k1 = (get_own ob ?L, ?W ?L)"
      by (simp add: nth_append)
    ultimately show ?thesis by (simp add: rl_def ld(2))
  qed
  have z: "zip (map snd (reads ob (strict_items ob))) rs
      = zip (map ?W ?k1) rs1 @ [(?W ?L, rl)] @ zip (map ?W ?k2) rs2"
    unfolding rd rs using l1 l2 by (simp add: comp_def)
  have d1: "distinct ?k1" and d2: "distinct ?k2" and dj: "set ?k1 \<inter> set ?k2 = {}"
    using ak(1) by auto
  have nL1: "?L \<notin> set ?k1" and nL2: "?L \<notin> set ?k2" using Lk ak(2) by auto
  define cl1 where "cl1 = ?E\<lparr>kind := foldl (\<lambda>kd k. grow k kd) (ArrayK 0) ?k1,
      props := ?P ?k1 rs1\<rparr>"
  have e1: "set ?k1 \<inter> fst ` set (props ?E) = {}" by (simp add: empty_obj_def)
  have f1: "\<forall>k \<in> set ?k1. definable (kind ?E) k"
    using nL1 by (auto simp: definable_def empty_obj_def)
  from writes_define [OF d1 l1 e1 f1, of "descriptor ob"]
  have w1: "writes ?E (zip (map ?W ?k1) rs1) = Inr cl1"
    by (simp add: cl1_def empty_obj_def)
  have "\<forall>k \<in> set ?k1. \<forall>i. k = KIdx i \<longrightarrow> i < n"
  proof (intro ballI allI impI)
    fix k' i assume "k' \<in> set ?k1" "k' = KIdx i"
    with ak(2) have "KIdx i \<in> fst ` set (props ob)" by auto
    then have "own_prop ob (KIdx i) \<noteq> None" by (simp add: own_prop_def map_of_eq_None_iff)
    with bd show "i < n" by simp
  qed
  from grow_bounded [OF _ this, of 0] obtain m where m: "m \<le> n"
    "foldl (\<lambda>kd k. grow k kd) (ArrayK 0) ?k1 = ArrayK m" by auto
  then have k1: "kind cl1 = ArrayK m" by (simp add: cl1_def)
  define cl2 where "cl2 = cl1\<lparr>kind := ArrayK n\<rparr>"
  have "defineProperty cl1 ?L ((descriptor ob ?L)\<lparr>pvalue := Num (int n)\<rparr>) = Inr cl2"
    unfolding cl2_def by (rule define_length [OF k1 m(1) n32]) (simp_all add: ld(1))
  then have w2: "write_item cl1 (?W ?L) rl = Inr cl2" by (simp add: write_item_def rlv)
  have "props cl2 = ?P ?k1 rs1" by (simp add: cl2_def cl1_def)
  then have "fst ` set (props cl2) \<subseteq> set ?k1" by (simp only: zip_keys)
  with dj have e2: "set ?k2 \<inter> fst ` set (props cl2) = {}" by blast
  have f2: "\<forall>k \<in> set ?k2. definable (kind cl2) k"
    using nL2 by (auto simp: definable_def cl2_def)
  define final where "final = \<lparr>kind = ArrayK n, props = ?P (?k1 @ ?k2) (rs1 @ rs2)\<rparr>"
  have "foldl (\<lambda>kd k. grow k kd) (ArrayK n) ?k2 = ArrayK n" using ak(3) by (rule grow_other)
  then have fin: "cl2\<lparr>kind := foldl (\<lambda>kd k. grow k kd) (kind cl2) ?k2,
      props := props cl2 @ ?P ?k2 rs2\<rparr> = final"
    using l1 by (simp add: cl2_def cl1_def final_def empty_obj_def)
  from writes_define [OF d2 l2 e2 f2, of "descriptor ob"] fin
  have w3: "writes cl2 (zip (map ?W ?k2) rs2) = Inr final" by simp
  have w: "writes ?E (zip (map snd (reads ob (strict_items ob))) rs) = Inr final"
    unfolding z by (simp add: writes_append w1 w2 w3)
  have pf: "props final = ?P (?k1 @ ?k2) (rs1 @ rs2)" and kf: "kind final = ArrayK n"
    by (simp_all add: final_def)
  have len: "length (rs1 @ rs2) = length (?k1 @ ?k2)" using l1 l2 by simp
  note ap = defined_props [OF pf ak(1) len]
  have "obj_equal R h final ob"
    if la: "list_all2 R rs (map fst (reads ob (strict_items ob)))" and ru: "R Undefined Undefined"
  proof -
    from la have la': "list_all2 R (rs1 @ rs2) (map (get_own ob) (?k1 @ ?k2))"
      unfolding rd rs using l1 l2 by (simp add: comp_def list_all2_append)
    have "R (get_own final (KIdx i)) (get_own ob (KIdx i))" if "i < n" for i
    proof (cases "KIdx i \<in> set (?k1 @ ?k2)")
      case True
      then obtain j where j: "j < length (?k1 @ ?k2)" "(?k1 @ ?k2) ! j = KIdx i"
        by (auto simp only: in_set_conv_nth)
      have jl: "j < length (map (get_own ob) (?k1 @ ?k2))" using j(1) by simp
      from la' jl have "R ((rs1 @ rs2) ! j) (map (get_own ob) (?k1 @ ?k2) ! j)"
        by (rule list_all2_nthD2)
      moreover from j(1) have "map (get_own ob) (?k1 @ ?k2) ! j = get_own ob ((?k1 @ ?k2) ! j)"
        by (rule nth_map)
      moreover from j(1) have "get_own final ((?k1 @ ?k2) ! j) = (rs1 @ rs2) ! j" by (rule ap(2))
      ultimately show ?thesis by (simp only: j(2))
    next
      case False
      then have "own_prop final (KIdx i) = None" by (rule ap(3))
      with kf have a: "get_own final (KIdx i) = Undefined" by (simp add: get_own_def)
      from False have "KIdx i \<notin> fst ` set (props ob)" unfolding ak(2) .
      then have "own_prop ob (KIdx i) = None" by (rule own_prop_None)
      with k have "get_own ob (KIdx i) = Undefined" by (simp add: get_own_def)
      with a ru show ?thesis by simp
    qed
    with kf k show ?thesis by (simp add: obj_equal_def)
  qed
  with w show ?thesis by blast
qed

lemma regular_ctor: "regular_obj s ob \<Longrightarrow> get_constructor ob = kind_ctor (kind ob)"
  by (simp add: regular_obj_def get_constructor_def)

lemma getCleanClone_regular:
  assumes "regular_obj s ob" and "kind ob = Ordinary p"
  shows "getCleanClone h ob = Inr (length h, h @ [empty_obj (Ordinary p)])"
proof -
  from assms(1) have np: "own_prop ob (KStr ''__proto__'') = None"
    by (simp add: regular_obj_def)
  show ?thesis
  proof (cases p)
    case PNull
    with assms show ?thesis
      by (simp add: getCleanClone_def regular_ctor kind_ctor_def truthy_def create_def alloc_def
          Let_def)
  next
    case PObject
    with assms np show ?thesis
      by (simp add: getCleanClone_def regular_ctor kind_ctor_def truthy_def create_def alloc_def
          prototype_of_def Let_def)
  next
    case (PUser n inh)
    show ?thesis
    proof (cases "map_of inh (KStr ''constructor'')")
      case None
      with PUser assms np show ?thesis
        by (simp add: getCleanClone_def regular_ctor kind_ctor_def truthy_def create_def alloc_def
            prototype_of_def Let_def)
    next
      case (Some cv)
      with PUser assms(1,2) obtain f where f: "cv = Fn f" "\<not> native_code f \<or> f = ObjectCtor"
        by (auto simp: regular_obj_def split: val.splits)
      with Some PUser assms np show ?thesis
        by (auto simp: getCleanClone_def regular_ctor kind_ctor_def truthy_def create_def alloc_def
            prototype_of_def Let_def)
    qed
  qed
qed

lemma getCleanClone_array:
  assumes "regular_obj s ob" and "kind ob = ArrayK n"
  shows "getCleanClone h ob = Inr (length h, h @ [empty_obj (ArrayK 0)])"
proof -
  from assms(1) have np: "own_prop ob (KStr ''__proto__'') = None"
    by (simp add: regular_obj_def)
  with assms show ?thesis
    by (simp add: getCleanClone_def regular_ctor kind_ctor_def truthy_def alloc_def
        native_code_def construct0_def Let_def)
qed

lemma dispatch_ordinary:
  assumes reg: "regular_obj s ob" and k: "kind ob = Ordinary p"
  shows "dispatch s h a ob =
     (if not_to_be_cloned ob \<and> \<not> cloned_before_guard ob then Inr (Return (Ref a))
      else Inr (Descend (length h) (h @ [empty_obj (Ordinary p)])
             (if s then strict_items ob else loose_items ob)))"
proof -
  note gc = getCleanClone_regular [OF reg k]
  have oc: "getObjectClone s h ob = Inr (Descend (length h) (h @ [empty_obj (Ordinary p)])
      (if s then strict_items ob else loose_items ob))"
    by (simp add: getObjectClone_def getObjectCloneLoose_def getObjectCloneStrict_def gc)
  show ?thesis
  proof (cases "get_constructor ob = Fn ObjectCtor")
    case True
    then show ?thesis by (simp add: dispatch_def oc cloned_before_guard_def)
  next
    case False
    with k show ?thesis
      by (simp add: dispatch_def Let_def oc cloned_before_guard_def not_to_be_cloned_def)
  qed
qed

lemma dispatch_array:
  assumes reg: "regular_obj s ob" and k: "kind ob = ArrayK n"
  shows "dispatch s h a ob = Inr (Descend (length h) (h @ [empty_obj (ArrayK 0)])
      (if s then strict_items ob else map (\<lambda>index. Assign (KIdx index)) [0..<n]))"
proof -
  have c: "get_constructor ob = Fn ArrayCtor"
    using regular_ctor [OF reg] k by (simp add: kind_ctor_def)
  note gc = getCleanClone_array [OF reg k]
  from c k show ?thesis
    by (simp add: dispatch_def Let_def getObjectCloneStrict_def gc descend_def construct0_def
        alloc_def)
qed

lemma dispatch_map:
  assumes reg: "regular_obj s ob" and k: "kind ob = MapK es"
  shows "dispatch s h a ob = Inr (Descend (length h) (h @ [empty_obj (MapK [])])
      (map (\<lambda>(key, value). Entry key value) es))"
proof -
  have c: "get_constructor ob = Fn MapCtor"
    using regular_ctor [OF reg] k by (simp add: kind_ctor_def)
  from c k show ?thesis
    by (simp add: dispatch_def Let_def descend_def construct_as_def alloc_def)
qed

lemma dispatch_set:
  assumes reg: "regular_obj s ob" and k: "kind ob = SetK ms"
  shows "dispatch s h a ob = Inr (Descend (length h) (h @ [empty_obj (SetK [])])
      (map Member ms))"
proof -
  have c: "get_constructor ob = Fn SetCtor"
    using regular_ctor [OF reg] k by (simp add: kind_ctor_def)
  from c k show ?thesis
    by (simp add: dispatch_def Let_def descend_def construct_as_def alloc_def)
qed

lemma dispatch_other:
  assumes reg: "regular_obj s ob"
    and k: "\<forall>p. kind ob \<noteq> Ordinary p" "\<forall>n. kind ob \<noteq> ArrayK n" "\<forall>es. kind ob \<noteq> MapK es"
      "\<forall>ms. kind ob \<noteq> SetK ms"
  shows "(dispatch s h a ob = Inr (Return (Ref a))
        \<and> not_to_be_cloned ob \<and> \<not> cloned_before_guard ob)
    \<or> (\<exists>x b. dispatch s h a ob = Inr (Build (length h) (h @ [x]) b)
        \<and> (\<forall>R hx. obj_equal R hx x ob))"
proof -
  have c: "get_constructor ob = kind_ctor (kind ob)" using reg by (rule regular_ctor)
  have nown: "own_prop ob (KStr ''constructor'') = None" using reg by (simp add: regular_obj_def)
  show ?thesis
  proof (cases "kind ob")
    case (DateK t)
    with c show ?thesis
      by (auto simp: dispatch_def Let_def kind_ctor_def built_def construct_as_def alloc_def
          obj_equal_def empty_obj_def)
  next
    case (RegExpK src fl li)
    with c show ?thesis
      by (auto simp: dispatch_def Let_def kind_ctor_def built_def construct_as_def alloc_def
          obj_equal_def empty_obj_def getRegExpFlags_def)
  next
    case (FileK n t bs)
    with reg have "own_enumerable_keys ob = {}" by (auto simp: regular_obj_def)
    with FileK c nown show ?thesis
      by (auto simp: dispatch_def Let_def kind_ctor_def alloc_def obj_equal_def empty_obj_def
          get_constructor_def own_prop_def own_enumerable_keys_def)
  next
    case (BufferK bs)
    with c show ?thesis
      by (auto simp: dispatch_def Let_def kind_ctor_def alloc_def obj_equal_def empty_obj_def)
  next
    case (ViewK vc b off len)
    with reg show ?thesis by (simp add: regular_obj_def)
  next
    case PromiseK
    with reg have "is_callable (get_then ob)" by (simp add: regular_obj_def)
    with PromiseK c show ?thesis
      by (simp add: dispatch_def Let_def kind_ctor_def not_to_be_cloned_def
          cloned_before_guard_def)
  next
    case ErrorK
    with c show ?thesis
      by (simp add: dispatch_def Let_def kind_ctor_def not_to_be_cloned_def
          cloned_before_guard_def)
  next
    case WeakMapK
    with c show ?thesis
      by (simp add: dispatch_def Let_def kind_ctor_def not_to_be_cloned_def
          cloned_before_guard_def)
  next
    case WeakSetK
    with c show ?thesis
      by (simp add: dispatch_def Let_def kind_ctor_def not_to_be_cloned_def
          cloned_before_guard_def)
  qed (use k in simp_all)
qed

lemma agree_length: "agree rs rds \<Longrightarrow> length rs = length rds"
  unfolding agree_def by (rule list_all2_lengthD)

lemma strict_readable:
  assumes reg: "regular_obj True ob"
    and s: "set ks \<subseteq> fst ` set (props ob)
        \<or> (\<exists>n. kind ob = ArrayK n \<and> set ks \<subseteq> insert (KStr ''length'') (fst ` set (props ob)))"
  shows "readable ob (map Define ks)"
  unfolding readable_def
proof (intro ballI allI)
  fix it e assume "it \<in> set (map Define ks)"
  then obtain k where k: "k \<in> set ks" "it = Define k" by auto
  from reg have d: "distinct (map fst (props ob))" by (simp add: regular_obj_def)
  have "getOwnPropertyDescriptor ob k \<noteq> None"
  proof (cases "k \<in> fst ` set (props ob)")
    case True
    from own_key_descriptor [OF d True] show ?thesis by auto
  next
    case False
    with s k obtain n where "kind ob = ArrayK n" "k = KStr ''length''" by auto
    then show ?thesis by (simp add: getOwnPropertyDescriptor_def split: option.splits)
  qed
  with k show "read_item ob it \<noteq> Inl e" by (auto simp: read_item_def)
qed

lemma loose_readable: "readable ob (loose_items ob)"
  by (auto simp: readable_def loose_items_def read_item_def split: if_splits)

lemma index_readable: "readable ob (map (\<lambda>index. Assign (KIdx index)) ns)"
  by (auto simp: readable_def read_item_def)

lemma entries_readable: "readable ob (map (\<lambda>(key, value). Entry key value) es)"
  by (auto simp: readable_def read_item_def)

lemma members_readable: "readable ob (map Member ms)"
  by (auto simp: readable_def read_item_def)

lemma strict_items_readable:
  assumes reg: "regular_obj True ob" and k: "(\<exists>p. kind ob = Ordinary p) \<or> (\<exists>n. kind ob = ArrayK n)"
  shows "readable ob (strict_items ob)"
  unfolding strict_items_def strict_keys_def [symmetric]
proof (rule strict_readable [OF reg])
  from reg have d: "distinct (map fst (props ob))" by (simp add: regular_obj_def)
  from k show "set (strict_keys ob) \<subseteq> fst ` set (props ob)
      \<or> (\<exists>n. kind ob = ArrayK n
          \<and> set (strict_keys ob) \<subseteq> insert (KStr ''length'') (fst ` set (props ob)))"
  proof (elim disjE exE)
    fix p assume "kind ob = Ordinary p"
    from ordinary_keys(2) [OF d this] show ?thesis by simp
  next
    fix n assume n: "kind ob = ArrayK n"
    have "set (index_keys ob @ other_keys ob) = fst ` set (props ob)"
      using d by (rule array_keys(2))
    then have "set (strict_keys ob) \<subseteq> insert (KStr ''length'') (fst ` set (props ob))"
      unfolding strict_keys_array [OF n] by auto
    with n show ?thesis by blast
  qed
qed

text \<open>What a planned descent is, on a regular object.\<close>

lemma descend_shape:
  assumes reg: "regular_obj s ob" and dp: "dispatch s h a ob = Inr (Descend cl h1 its)"
  shows "cl = length h \<and> its = plan_items s ob \<and> readable ob its
    \<and> (\<exists>x. h1 = h @ [x])"
proof (cases "kind ob")
  case (Ordinary p)
  from dp have np: "\<not> (not_to_be_cloned ob \<and> \<not> cloned_before_guard ob)"
    unfolding dispatch_ordinary [OF reg Ordinary] by (auto split: if_splits)
  with dp have e: "cl = length h" "h1 = h @ [empty_obj (Ordinary p)]"
    "its = (if s then strict_items ob else loose_items ob)"
    unfolding dispatch_ordinary [OF reg Ordinary] by (auto split: if_splits)
  have r: "readable ob its"
  proof (cases s)
    case True
    with reg Ordinary e(3) show ?thesis by (auto intro: strict_items_readable)
  next
    case False
    with e(3) show ?thesis by (simp add: loose_readable)
  qed
  from np Ordinary e r show ?thesis by (auto simp: plan_items_def)
next
  case (ArrayK n)
  from dp have e: "cl = length h" "h1 = h @ [empty_obj (ArrayK 0)]"
    "its = (if s then strict_items ob else map (\<lambda>index. Assign (KIdx index)) [0..<n])"
    unfolding dispatch_array [OF reg ArrayK] by auto
  have r: "readable ob its"
  proof (cases s)
    case True
    with reg ArrayK e(3) show ?thesis by (auto intro: strict_items_readable)
  next
    case False
    with e(3) show ?thesis by (simp add: index_readable)
  qed
  from ArrayK e r show ?thesis by (auto simp: plan_items_def)
next
  case (MapK es)
  from dp show ?thesis
    unfolding dispatch_map [OF reg MapK] using MapK
    by (auto simp: plan_items_def entries_readable)
next
  case (SetK ms)
  from dp show ?thesis
    unfolding dispatch_set [OF reg SetK] using SetK
    by (auto simp: plan_items_def members_readable)
qed (use dispatch_other [OF reg, of h a] dp in auto)

text \<open>
  The writes of a planned descent succeed, and when the values written are related to
  the values read, the finished clone equals its source.
\<close>

lemma descend_writes:
  assumes reg: "regular_obj s ob" and dp: "dispatch s h a ob = Inr (Descend cl h1 its)"
    and ag: "agree rs (reads ob its)"
  shows "\<exists>final. writes (h1 ! cl) (zip (map snd (reads ob its)) rs) = Inr final
    \<and> (list_all2 R rs (map fst (reads ob its)) \<and> R Undefined Undefined
        \<and> ((\<exists>ms. kind ob = SetK ms) \<longrightarrow> distinct rs) \<longrightarrow> obj_equal R hx final ob)"
proof (cases "kind ob")
  case (Ordinary p)
  from dp have e: "cl = length h" "h1 = h @ [empty_obj (Ordinary p)]"
    "its = (if s then strict_items ob else loose_items ob)"
    unfolding dispatch_ordinary [OF reg Ordinary] by (auto split: if_splits)
  from e have c: "h1 ! cl = empty_obj (Ordinary p)" by simp
  show ?thesis
  proof (cases s)
    case True
    with reg have reg': "regular_obj True ob" by simp
    from ag e(3) True have l: "length rs = length (reads ob (strict_items ob))"
      by (auto dest: agree_length)
    from strict_clone_equal [OF reg' Ordinary l, of R hx] c e(3) True show ?thesis by auto
  next
    case False
    with reg have reg': "regular_obj False ob" by simp
    from ag e(3) False have l: "length rs = length (reads ob (loose_items ob))"
      by (auto dest: agree_length)
    from loose_clone_equal [OF reg' Ordinary l, of R hx] c e(3) False show ?thesis by auto
  qed
next
  case (ArrayK n)
  from dp have e: "cl = length h" "h1 = h @ [empty_obj (ArrayK 0)]"
    "its = (if s then strict_items ob else map (\<lambda>index. Assign (KIdx index)) [0..<n])"
    unfolding dispatch_array [OF reg ArrayK] by auto
  from e have c: "h1 ! cl = empty_obj (ArrayK 0)" by simp
  show ?thesis
  proof (cases s)
    case True
    with reg have reg': "regular_obj True ob" by simp
    from ag e(3) True have ag': "agree rs (reads ob (strict_items ob))" by simp
    from strict_array_clone_equal [OF reg' ArrayK ag', of R hx] c e(3) True
    show ?thesis by auto
  next
    case False
    from ag e(3) False
    have l: "length rs = length (reads ob (map (\<lambda>index. Assign (KIdx index)) [0..<n]))"
      by (auto dest: agree_length)
    from array_clone_equal [OF ArrayK l, of R hx] c e(3) False show ?thesis by auto
  qed
next
  case (MapK es)
  from dp have e: "cl = length h" "h1 = h @ [empty_obj (MapK [])]"
    "its = map (\<lambda>(key, value). Entry key value) es"
    unfolding dispatch_map [OF reg MapK] by auto
  from e have c: "h1 ! cl = empty_obj (MapK [])" by simp
  from reg MapK have d: "distinct (map fst es)" by (simp add: regular_obj_def)
  let ?ks = "map fst es"
  have g: "map snd (map (\<lambda>(k, v). (v, WMapSet k)) es) = map WMapSet ?ks"
    by (induction es) auto
  from ag e(3) have l: "length rs = length ?ks"
    by (auto dest: agree_length simp: reads_Entry)
  have "writes (empty_obj (MapK [])) (zip (map WMapSet ?ks) rs)
      = Inr ((empty_obj (MapK []))\<lparr>kind := MapK ([] @ zip ?ks rs)\<rparr>)"
    by (rule writes_mapset [OF d l]) (simp_all add: empty_obj_def)
  then have w: "writes (h1 ! cl) (zip (map snd (reads ob its)) rs)
      = Inr ((empty_obj (MapK []))\<lparr>kind := MapK ([] @ zip ?ks rs)\<rparr>)"
    unfolding c e(3) by (simp only: reads_Entry g)
  have "obj_equal R hx ((empty_obj (MapK []))\<lparr>kind := MapK ([] @ zip ?ks rs)\<rparr>) ob"
    if "list_all2 R rs (map fst (reads ob its))"
    using map_clone_equal [OF MapK d, of R rs _ hx] that w unfolding c e(3) by blast
  with w show ?thesis by blast
next
  case (SetK ms)
  from dp have e: "cl = length h" "h1 = h @ [empty_obj (SetK [])]" "its = map Member ms"
    unfolding dispatch_set [OF reg SetK] by auto
  from e have c: "h1 ! cl = empty_obj (SetK [])" by simp
  from ag e(3) have l: "length rs = length ms"
    by (auto dest: agree_length simp: reads_Member)
  have "zip (map (\<lambda>v. WSetAdd) ms) rs = map (\<lambda>r. (WSetAdd, r)) rs"
    using l [symmetric] by (induction ms rs rule: list_induct2) simp_all
  then have z: "zip (map snd (reads ob (map Member ms))) rs = map (\<lambda>r. (WSetAdd, r)) rs"
    by (simp add: reads_Member comp_def)
  have "kind (empty_obj (SetK [])) = SetK []" by (simp add: empty_obj_def)
  from writes_setadd_total [OF this, of rs] obtain final where
    "writes (empty_obj (SetK [])) (map (\<lambda>r. (WSetAdd, r)) rs) = Inr final" ..
  then have w: "writes (h1 ! cl) (zip (map snd (reads ob its)) rs) = Inr final"
    unfolding c e(3) by (simp only: z)
  have "obj_equal R hx final ob"
    if "list_all2 R rs (map fst (reads ob its))" "distinct rs"
    using set_clone_equal [OF SetK that(2), of R final hx] that(1) w unfolding c e(3) by blast
  with w SetK show ?thesis by blast
qed (use dispatch_other [OF reg, of h a] dp in auto)

lemma walk_head: "a \<in> set (walk s f h (Ref a))"
  by (cases f) simp_all

lemma quiet_nil: "quiet s f h cache [] {} cache"
  by (simp add: quiet_def walks_def)

lemma quiet_prim: "\<forall>a. v \<noteq> Ref a \<Longrightarrow> quiet s f h cache [v] {} cache"
  by (simp add: quiet_def)

lemma quiet_cached: "a \<in> cache \<Longrightarrow> quiet s f h cache [Ref a] H c'"
  using walk_head [of a s f h] by (auto simp: quiet_def untouched_def walks_def)

lemma quiet_leaf: "c' \<subseteq> insert a cache \<Longrightarrow> quiet s f h cache [Ref a] {} c'"
  using walk_head [of a s f h] by (auto simp: quiet_def walks_def)

lemma quiet_step:
  assumes q1: "quiet s f h cache [child] H1 c1" and q2: "quiet s f h c1 chs H2 c'"
  shows "quiet s f h cache (child # chs) (H1 \<union> H2) c'"
  unfolding quiet_def
proof
  assume u: "untouched s f h cache (child # chs)"
  then have d: "distinct (walk s f h child)" "distinct (walks s f h chs)"
    and dj: "set (walk s f h child) \<inter> set (walks s f h chs) = {}"
    and c1: "set (walk s f h child) \<inter> cache = {}"
    and c2: "set (walks s f h chs) \<inter> cache = {}"
    by (auto simp: untouched_def walks_def)
  from d(1) c1 have "untouched s f h cache [child]" by (simp add: untouched_def walks_def)
  with q1 have h1: "H1 = {}" and s1: "c1 \<subseteq> cache \<union> set (walk s f h child)"
    by (simp_all add: quiet_def walks_def)
  from s1 dj c2 have "set (walks s f h chs) \<inter> c1 = {}" by blast
  with d(2) have "untouched s f h c1 chs" by (simp add: untouched_def)
  with q2 have h2: "H2 = {}" and s2: "c' \<subseteq> c1 \<union> set (walks s f h chs)"
    by (simp_all add: quiet_def)
  from s1 s2 have "c' \<subseteq> cache \<union> set (walks s f h (child # chs))"
    by (auto simp: walks_def)
  with h1 h2 show "H1 \<union> H2 = {} \<and> c' \<subseteq> cache \<union> set (walks s f h (child # chs))" by simp
qed

lemma quiet_descend:
  assumes lk: "lookup h a = Some ob"
    and q: "quiet s f h (insert a cache) (map fst (reads ob (plan_items s ob))) H c'"
  shows "quiet s (Suc f) h cache [Ref a] H c'"
  unfolding quiet_def
proof
  let ?vs = "map fst (reads ob (plan_items s ob))"
  assume u: "untouched s (Suc f) h cache [Ref a]"
  have w: "walks s (Suc f) h [Ref a] = a # walks s f h ?vs"
    using lk by (simp add: walks_def)
  from u have "distinct (walks s f h ?vs)" "a \<notin> set (walks s f h ?vs)"
    "set (walks s f h ?vs) \<inter> cache = {}"
    unfolding untouched_def w by auto
  then have "untouched s f h (insert a cache) ?vs" by (simp add: untouched_def)
  with q have "H = {}" and "c' \<subseteq> insert a cache \<union> set (walks s f h ?vs)"
    by (simp_all add: quiet_def)
  then show "H = {} \<and> c' \<subseteq> cache \<union> set (walks s (Suc f) h [Ref a])"
    unfolding w by auto
qed

lemma regular_no_view:
  assumes "regular s h0" and "a < length h0"
  shows "\<forall>c b off len. kind (h0 ! a) \<noteq> ViewK c b off len"
proof -
  from assms have "regular_obj s (h0 ! a)" by (simp add: regular_def)
  then show ?thesis by (auto simp: regular_obj_def)
qed

lemma regular_nth: "regular s h0 \<Longrightarrow> a < length h0 \<Longrightarrow> regular_obj s (h0 ! a)"
  by (simp add: regular_def)

lemma mirror1_keep:
  assumes m: "mirror1 M H h0 h h1 c s" and sub: "M \<subseteq> M'" and subH: "H \<subseteq> H'"
    and reg: "regular st h0"
    and lb: "length hb \<le> length h" and l2: "length h1 \<le> length h2" and same: "h2 ! c = h1 ! c"
  shows "mirror1 M' H' h0 hb h2 c s"
proof -
  from m have c: "length h \<le> c" "c < length h1" and s: "s < length h0"
    and e: "obj_equal (share M H h0) h1 (h1 ! c) (h0 ! s)"
    by (simp_all add: mirror1_def)
  from e have "obj_equal (share M' H' h0) h1 (h1 ! c) (h0 ! s)"
    by (rule obj_equal_mono [rotated]) (rule share_mono [OF sub subH])
  with regular_no_view [OF reg s] have "obj_equal (share M' H' h0) h2 (h1 ! c) (h0 ! s)"
    by (rule obj_equal_heap)
  with c s lb l2 same show ?thesis by (simp add: mirror1_def)
qed

lemma made_not_closed:
  assumes "made h h' r" and "closed_val n0 ch" and "n0 \<le> length h"
  shows "r \<noteq> ch"
  using assms by (auto simp: made_def closed_val_def)

lemma closed_not_newer: "closed_val n0 ch \<Longrightarrow> n0 \<le> length h \<Longrightarrow> \<not> newer h ch"
  by (auto simp: closed_val_def newer_def)

lemma made_newer: "made h h' r \<Longrightarrow> length hb \<le> length h \<Longrightarrow> newer hb r"
  by (auto simp: made_def newer_def)

lemma made_wider: "made h1 h2 r \<Longrightarrow> length h \<le> length h1 \<Longrightarrow> length h2 \<le> length h3
    \<Longrightarrow> made h h3 r"
  by (auto simp: made_def)

lemma looped_step:
  assumes c: "cloned s fuel h0 h cache child r h1 c1"
    and wr: "write_item (h ! cl) w r = Inr cobj'"
    and l: "looped s fuel h0 (h1[cl := cobj']) c1 cl rds h' c'"
    and clh: "cl < length h" and n0: "length h0 \<le> length h"
    and reg: "regular s h0"
    and cc: "closed_val (length h0) child"
    and cr: "\<forall>ch \<in> set (map fst rds). closed_val (length h0) ch"
  shows "looped s fuel h0 h cache cl ((child, w) # rds) h' c'"
proof -
  let ?h1 = "h1[cl := cobj']"
  from c have l1: "length h \<le> length h1" and f1: "\<forall>a<length h. h1 ! a = h ! a"
    and r1: "r = child \<or> made h h1 r" and k1: "cache \<subseteq> c1"
    and ex1: "\<exists>M H. mirrored M H h0 h h1 \<and> share M H h0 r child \<and> H \<subseteq> c1
        \<and> c1 \<subseteq> cache \<union> snd ` M \<and> quiet s fuel h0 cache [child] H c1"
    by (simp_all add: cloned_def)
  from ex1 obtain M1 H1 where m1: "mirrored M1 H1 h0 h h1" and rel1: "share M1 H1 h0 r child"
    and hs1: "H1 \<subseteq> c1" and cs1: "c1 \<subseteq> cache \<union> snd ` M1"
    and q1: "quiet s fuel h0 cache [child] H1 c1"
    by blast
  from l have l2: "length ?h1 \<le> length h'"
    and f2: "\<forall>a<length ?h1. a \<noteq> cl \<longrightarrow> h' ! a = ?h1 ! a" and k2: "c1 \<subseteq> c'"
    and ex2: "\<exists>M H rs. mirrored M H h0 ?h1 h'
        \<and> list_all2 (\<lambda>r ch. share M H h0 r ch \<and> (r = ch \<or> made ?h1 h' r)) rs (map fst rds)
        \<and> distinct (filter (newer ?h1) rs)
        \<and> writes (?h1 ! cl) (zip (map snd rds) rs) = Inr (h' ! cl)
        \<and> H \<subseteq> c' \<and> c' \<subseteq> c1 \<union> snd ` M
        \<and> quiet s fuel h0 c1 (map fst rds) H c'"
    by (simp_all add: looped_def)
  from ex2 obtain M2 H2 rs where m2: "mirrored M2 H2 h0 ?h1 h'"
    and la: "list_all2 (\<lambda>r ch. share M2 H2 h0 r ch \<and> (r = ch \<or> made ?h1 h' r)) rs (map fst rds)"
    and d2: "distinct (filter (newer ?h1) rs)"
    and w2: "writes (?h1 ! cl) (zip (map snd rds) rs) = Inr (h' ! cl)"
    and hs2: "H2 \<subseteq> c'" and cs2: "c' \<subseteq> c1 \<union> snd ` M2"
    and q2: "quiet s fuel h0 c1 (map fst rds) H2 c'"
    by blast
  let ?M = "M1 \<union> M2" and ?H = "H1 \<union> H2"
  have len: "length h \<le> length h'" using l1 l2 by simp
  have frame: "\<forall>a<length h. a \<noteq> cl \<longrightarrow> h' ! a = h ! a"
  proof (intro allI impI)
    fix a assume a: "a < length h" "a \<noteq> cl"
    with l1 f2 have "h' ! a = ?h1 ! a" by simp
    with a f1 show "h' ! a = h ! a" by simp
  qed
  have kk: "cache \<subseteq> c'" using k1 k2 by (rule subset_trans)
  have mir: "mirrored ?M ?H h0 h h'"
    unfolding mirrored_def
  proof (intro ballI, clarify)
    fix c sa assume "(c, sa) \<in> ?M"
    then show "mirror1 ?M ?H h0 h h' c sa"
    proof
      assume in1: "(c, sa) \<in> M1"
      with m1 have m: "mirror1 M1 H1 h0 h h1 c sa" by (auto simp: mirrored_def)
      then have cb: "length h \<le> c" "c < length h1" by (simp_all add: mirror1_def)
      with clh f2 have eq: "h' ! c = h1 ! c" by simp
      have sub: "M1 \<subseteq> ?M" "H1 \<subseteq> ?H" by simp_all
      have le: "length h1 \<le> length h'" using l2 by simp
      show ?thesis by (rule mirror1_keep [OF m sub reg order_refl le eq])
    next
      assume in2: "(c, sa) \<in> M2"
      with m2 have m: "mirror1 M2 H2 h0 ?h1 h' c sa" by (auto simp: mirrored_def)
      have sub: "M2 \<subseteq> ?M" "H2 \<subseteq> ?H" by simp_all
      have le: "length h \<le> length ?h1" using l1 by simp
      show ?thesis by (rule mirror1_keep [OF m sub reg le order_refl refl])
    qed
  qed
  have "share ?M ?H h0 r child" by (rule share_mono [OF _ _ rel1]) simp_all
  moreover have "r = child \<or> made h h' r" using r1 l2 by (auto simp: made_def)
  ultimately have head: "share ?M ?H h0 r child \<and> (r = child \<or> made h h' r)" ..
  have tail: "list_all2 (\<lambda>r ch. share ?M ?H h0 r ch \<and> (r = ch \<or> made h h' r)) rs (map fst rds)"
    using la
  proof (rule list_all2_mono)
    fix r' ch assume a: "share M2 H2 h0 r' ch \<and> (r' = ch \<or> made ?h1 h' r')"
    then have "share ?M ?H h0 r' ch" by (intro share_mono [of M2 ?M H2 ?H]) simp_all
    moreover from a have "r' = ch \<or> made h h' r'" using l1 by (auto simp: made_def)
    ultimately show "share ?M ?H h0 r' ch \<and> (r' = ch \<or> made h h' r')" ..
  qed
  have nw: "newer h r' \<longleftrightarrow> newer ?h1 r'" if "r' \<in> set rs" for r'
  proof -
    from that obtain i where i: "i < length rs" "rs ! i = r'" by (auto simp: in_set_conv_nth)
    from la have ll: "length rs = length (map fst rds)" by (rule list_all2_lengthD)
    from la i(1) have "rs ! i = map fst rds ! i \<or> made ?h1 h' (rs ! i)"
      by (auto dest: list_all2_nthD)
    moreover from i(1) ll have "map fst rds ! i \<in> set (map fst rds)" by (intro nth_mem) simp
    ultimately obtain ch where ch: "ch \<in> set (map fst rds)" "r' = ch \<or> made ?h1 h' r'"
      using i(2) by blast
    from ch(2) show ?thesis
    proof
      assume "r' = ch"
      with ch(1) cr have "closed_val (length h0) r'" by blast
      then have "\<not> newer h r'" "\<not> newer ?h1 r'"
        using n0 l1 by (auto simp: closed_val_def newer_def)
      then show ?thesis by simp
    next
      assume "made ?h1 h' r'"
      then have "newer ?h1 r'" "newer h r'" using l1 by (auto simp: made_def newer_def)
      then show ?thesis by simp
    qed
  qed
  then have fl: "filter (newer h) rs = filter (newer ?h1) rs" by (auto intro: filter_cong)
  have dist: "distinct (filter (newer h) (r # rs))"
  proof (cases "newer h r")
    case False
    with fl d2 show ?thesis by simp
  next
    case True
    with cc n0 have "r \<noteq> child" by (auto simp: closed_val_def newer_def)
    with r1 have "made h h1 r" by simp
    then have "\<not> newer ?h1 r" by (auto simp: made_def newer_def)
    then have "r \<notin> set (filter (newer ?h1) rs)" by simp
    with True fl d2 show ?thesis by simp
  qed
  have "?h1 ! cl = cobj'" using clh l1 by simp
  with w2 wr have ws: "writes (h ! cl) (zip (map snd ((child, w) # rds)) (r # rs)) = Inr (h' ! cl)"
    by simp
  from head tail
  have la': "list_all2 (\<lambda>r ch. share ?M ?H h0 r ch \<and> (r = ch \<or> made h h' r)) (r # rs)
      (map fst ((child, w) # rds))" by simp
  have hs: "?H \<subseteq> c'" using hs1 hs2 k2 by blast
  have cs: "c' \<subseteq> cache \<union> snd ` ?M" using cs1 cs2 by blast
  have q: "quiet s fuel h0 cache (map fst ((child, w) # rds)) ?H c'"
    using quiet_step [OF q1 q2] by simp
  have ex: "\<exists>M H rs'. mirrored M H h0 h h'
      \<and> list_all2 (\<lambda>r ch. share M H h0 r ch \<and> (r = ch \<or> made h h' r)) rs'
            (map fst ((child, w) # rds))
      \<and> distinct (filter (newer h) rs')
      \<and> writes (h ! cl) (zip (map snd ((child, w) # rds)) rs') = Inr (h' ! cl)
      \<and> H \<subseteq> c' \<and> c' \<subseteq> cache \<union> snd ` M
      \<and> quiet s fuel h0 cache (map fst ((child, w) # rds)) H c'"
    by (rule exI [of _ ?M], rule exI [of _ ?H], rule exI [of _ "r # rs"])
      (intro conjI mir la' dist ws hs cs q)
  show ?thesis
    unfolding looped_def by (intro conjI len frame kk ex)
qed

lemma child_closed:
  assumes wf: "wf_heap h0" and src: "src < length h0"
    and c: "child \<in> set (children (h0 ! src)) \<or> (\<forall>x. child \<noteq> Ref x)"
  shows "closed_val (length h0) child"
proof -
  from src have "h0 ! src \<in> set h0" by simp
  with wf c show ?thesis by (auto simp: wf_heap_def closed_val_def split: val.splits)
qed

lemma reads_closed:
  assumes wf: "wf_heap h0" and src: "src < length h0"
  shows "items_ok (h0 ! src) its
    \<Longrightarrow> \<forall>ch \<in> set (map fst (reads (h0 ! src) its)). closed_val (length h0) ch"
proof (induction its)
  case Nil
  then show ?case by simp
next
  case (Cons it its)
  from Cons.prems have ok: "items_ok (h0 ! src) its" by (simp add: items_ok_def)
  show ?case
  proof (cases "read_item (h0 ! src) it")
    case (Inl e)
    with Cons.IH [OF ok] show ?thesis by simp
  next
    case (Inr rd)
    show ?thesis
    proof (cases rd)
      case None
      with Inr Cons.IH [OF ok] show ?thesis by simp
    next
      case (Some cw)
      obtain child w where cw: "cw = (child, w)" by (cases cw)
      with Inr Some Cons.prems
      have "child \<in> set (children (h0 ! src)) \<or> (\<forall>x. child \<noteq> Ref x)"
        by (auto simp: items_ok_def)
      then have "closed_val (length h0) child" by (rule child_closed [OF wf src])
      with Inr Some cw Cons.IH [OF ok] show ?thesis by simp
    qed
  qed
qed

lemma closed_known: "closed_val (length h0) v \<Longrightarrow> known h0 h v"
  by (auto simp: closed_val_def known_def)

lemma looped_Nil: "looped s fuel h0 h cache cl [] h cache"
proof -
  have "mirrored {} {} h0 h h" by (simp add: mirrored_def)
  then have "\<exists>M H rs. mirrored M H h0 h h
      \<and> list_all2 (\<lambda>r ch. share M H h0 r ch \<and> (r = ch \<or> made h h r)) rs (map fst [])
      \<and> distinct (filter (newer h) rs)
      \<and> writes (h ! cl) (zip (map snd []) rs) = Inr (h ! cl)
      \<and> H \<subseteq> cache \<and> cache \<subseteq> cache \<union> snd ` M
      \<and> quiet s fuel h0 cache (map fst []) H cache"
    by (intro exI [of _ "{}"] exI [of _ "[]"]) (simp add: quiet_nil)
  then show ?thesis by (simp add: looped_def)
qed

lemma distinct_filter_nth:
  "distinct (filter P xs) \<Longrightarrow> i < length xs \<Longrightarrow> j < length xs \<Longrightarrow> i \<noteq> j
   \<Longrightarrow> P (xs ! i) \<Longrightarrow> P (xs ! j) \<Longrightarrow> xs ! i \<noteq> xs ! j"
proof (induction xs arbitrary: i j)
  case Nil
  then show ?case by simp
next
  case (Cons x xs)
  show ?case
  proof (cases i)
    case 0
    with Cons.prems obtain j' where j': "j = Suc j'" "j' < length xs" by (cases j) auto
    with Cons.prems have "xs ! j' \<in> set (filter P xs)" by simp
    moreover from 0 Cons.prems have "x \<notin> set (filter P xs)" by simp
    ultimately show ?thesis using 0 j' by auto
  next
    case (Suc i')
    show ?thesis
    proof (cases j)
      case 0
      from Suc Cons.prems have "xs ! i' \<in> set (filter P xs)" by simp
      moreover from 0 Cons.prems have "x \<notin> set (filter P xs)" by simp
      ultimately show ?thesis using 0 Suc by auto
    next
      case j: (Suc j')
      from Cons.prems(1) have "distinct (filter P xs)" by (simp split: if_splits)
      from Cons.IH [OF this, of i' j'] Cons.prems Suc j show ?thesis by simp
    qed
  qed
qed

lemma results_distinct:
  assumes la: "list_all2 (\<lambda>r ch. P r ch \<and> (r = ch \<or> made h h' r)) rs chs"
    and dc: "distinct chs" and cl: "\<forall>ch \<in> set chs. closed_val n0 ch" and n0: "n0 \<le> length h"
    and df: "distinct (filter (newer h) rs)"
  shows "distinct rs"
  unfolding distinct_conv_nth
proof (intro allI impI)
  fix i j assume i: "i < length rs" and j: "j < length rs" and ij: "i \<noteq> j"
  from la have ll: "length rs = length chs" by (rule list_all2_lengthD)
  from la i have pi: "rs ! i = chs ! i \<or> made h h' (rs ! i)" by (auto dest: list_all2_nthD)
  from la j have pj: "rs ! j = chs ! j \<or> made h h' (rs ! j)" by (auto dest: list_all2_nthD)
  from cl i j ll have ci: "closed_val n0 (chs ! i)" and cj: "closed_val n0 (chs ! j)" by simp_all
  show "rs ! i \<noteq> rs ! j"
  proof (cases "made h h' (rs ! i)")
    case mi: True
    show ?thesis
    proof (cases "made h h' (rs ! j)")
      case True
      with mi have ni: "newer h (rs ! i)" and nj: "newer h (rs ! j)"
        by (auto simp: made_def newer_def)
      from df i j ij ni nj show ?thesis by (rule distinct_filter_nth)
    next
      case False
      with pj have "rs ! j = chs ! j" by simp
      with cj mi n0 show ?thesis by (auto simp: made_def closed_val_def)
    qed
  next
    case False
    with pi have ei: "rs ! i = chs ! i" by simp
    show ?thesis
    proof (cases "made h h' (rs ! j)")
      case True
      with ei ci n0 show ?thesis by (auto simp: made_def closed_val_def)
    next
      case False
      with pj have "rs ! j = chs ! j" by simp
      with ei dc i j ij ll show ?thesis by (simp add: nth_eq_iff_index_eq)
    qed
  qed
qed

lemma copy_items_looped:
  assumes H: "\<And>v h cache r h' c'. handleCopy s fuel v h cache = Some (Inr (r, h', c'))
      \<Longrightarrow> originals h0 h \<Longrightarrow> known h0 h v \<Longrightarrow> cloned s fuel h0 h cache v r h' c'"
    and wf: "wf_heap h0" and reg: "regular s h0" and src: "src < length h0"
    and cl: "length h0 \<le> cl"
  shows "copy_items s fuel src cl its h cache = Some (Inr (h', c'))
    \<Longrightarrow> items_ok (h0 ! src) its \<Longrightarrow> originals h0 h \<Longrightarrow> cl < length h
    \<Longrightarrow> looped s fuel h0 h cache cl (reads (h0 ! src) its) h' c'"
proof (induction its arbitrary: h cache)
  case Nil
  then show ?case by (simp add: looped_Nil)
next
  case (Cons it its)
  let ?ob = "h0 ! src"
  have ok: "items_ok ?ob its" using Cons.prems(2) by (simp add: items_ok_def)
  have lk: "lookup h src = Some ?ob" using Cons.prems(3) src by (rule originals_lookup)
  have n0: "length h0 \<le> length h" using Cons.prems(3) by (simp add: originals_def)
  have cr: "\<forall>ch \<in> set (map fst (reads ?ob its)). closed_val (length h0) ch"
    using ok by (rule reads_closed [OF wf src])
  show ?case
  proof (cases "read_item ?ob it")
    case (Inl e)
    with lk Cons.prems(1) show ?thesis by simp
  next
    case (Inr rd)
    show ?thesis
    proof (cases rd)
      case None
      with Inr lk Cons.prems(1)
      have "copy_items s fuel src cl its h cache = Some (Inr (h', c'))"
        by simp
      from Cons.IH [OF this ok Cons.prems(3,4)] Inr None show ?thesis by simp
    next
      case (Some cw)
      obtain child w where cw: "cw = (child, w)" by (cases cw)
      with Inr Some have rd: "read_item ?ob it = Inr (Some (child, w))" by simp
      with Cons.prems(2) have "child \<in> set (children ?ob) \<or> (\<forall>x. child \<noteq> Ref x)"
        by (auto simp: items_ok_def)
      then have cc: "closed_val (length h0) child" by (rule child_closed [OF wf src])
      then have kn: "known h0 h child" by (rule closed_known)
      from Cons.prems(1) lk rd obtain r h1 c1 where
        hc: "handleCopy s fuel child h cache = Some (Inr (r, h1, c1))"
        by (auto split: option.splits sum.splits)
      from H [OF hc Cons.prems(3) kn] have c: "cloned s fuel h0 h cache child r h1 c1" .
      then have l1: "length h \<le> length h1" and f1: "\<forall>a<length h. h1 ! a = h ! a"
        by (simp_all add: cloned_def)
      with Cons.prems(4) have lc: "lookup h1 cl = Some (h ! cl)" by (simp add: lookup_def)
      from Cons.prems(1) lk rd hc lc obtain cobj' where
        wr: "write_item (h ! cl) w r = Inr cobj'"
        and rec: "copy_items s fuel src cl its (h1[cl := cobj']) c1 = Some (Inr (h', c'))"
        by (auto split: sum.splits)
      have o1: "originals h0 (h1[cl := cobj'])"
      proof -
        have "take (length h0) h1 = take (length h0) (take (length h) h1)"
          using n0 by (simp add: min_def)
        also have "take (length h) h1 = h"
          using f1 l1 by (auto simp: list_eq_iff_nth_eq)
        finally have "take (length h0) h1 = h0" using Cons.prems(3) by (simp add: originals_def)
        with n0 l1 have "originals h0 h1" by (simp add: originals_def)
        then show ?thesis using cl by (rule originals_update)
      qed
      have c1: "cl < length (h1[cl := cobj'])" using Cons.prems(4) l1 by simp
      from Cons.IH [OF rec ok o1 c1]
      have "looped s fuel h0 (h1[cl := cobj']) c1 cl (reads ?ob its) h' c'" .
      from looped_step [OF c wr this Cons.prems(4) n0 reg cc cr]
      show ?thesis using rd by simp
    qed
  qed
qed

lemma cloned_prim:
  assumes "\<forall>a. v \<noteq> Ref a"
  shows "cloned s fuel h0 h cache v v h cache"
proof -
  have "mirrored {} {} h0 h h" by (simp add: mirrored_def)
  moreover have "share {} {} h0 v v" using assms by (rule share_same)
  moreover have "quiet s fuel h0 cache [v] {} cache" using assms by (rule quiet_prim)
  ultimately have "\<exists>M H. mirrored M H h0 h h \<and> share M H h0 v v \<and> H \<subseteq> cache
      \<and> cache \<subseteq> cache \<union> snd ` M \<and> quiet s fuel h0 cache [v] H cache"
    by (intro exI [of _ "{}"]) simp
  then show ?thesis by (simp add: cloned_def)
qed

lemma cloned_cached:
  assumes "a \<in> cache"
  shows "cloned s fuel h0 h cache (Ref a) (Ref a) h cache"
proof -
  have "mirrored {} {a} h0 h h" by (simp add: mirrored_def)
  moreover have "share {} {a} h0 (Ref a) (Ref a)" by (simp add: share_def)
  moreover have "quiet s fuel h0 cache [Ref a] {a} cache" using assms by (rule quiet_cached)
  moreover have "{a} \<subseteq> cache" using assms by simp
  ultimately have "\<exists>M H. mirrored M H h0 h h \<and> share M H h0 (Ref a) (Ref a) \<and> H \<subseteq> cache
      \<and> cache \<subseteq> cache \<union> snd ` M \<and> quiet s fuel h0 cache [Ref a] H cache"
    by (intro exI [of _ "{}"] exI [of _ "{a}"]) simp
  then show ?thesis by (simp add: cloned_def)
qed

lemma cloned_passed:
  assumes "passed h0 a"
  shows "cloned s fuel h0 h cache (Ref a) (Ref a) h cache"
proof -
  have "mirrored {} {} h0 h h" by (simp add: mirrored_def)
  moreover have "share {} {} h0 (Ref a) (Ref a)" using assms by (simp add: share_def)
  moreover have "quiet s fuel h0 cache [Ref a] {} cache" by (rule quiet_leaf) blast
  ultimately have "\<exists>M H. mirrored M H h0 h h \<and> share M H h0 (Ref a) (Ref a) \<and> H \<subseteq> cache
      \<and> cache \<subseteq> cache \<union> snd ` M \<and> quiet s fuel h0 cache [Ref a] H cache"
    by (intro exI [of _ "{}"]) simp
  then show ?thesis by (simp add: cloned_def)
qed

lemma dispatch_build_equal:
  assumes reg: "regular_obj s ob" and dp: "dispatch s h a ob = Inr (Build c h1 b)"
  shows "c = length h \<and> (\<exists>x. h1 = h @ [x] \<and> obj_equal R hx x ob)"
proof (cases "kind ob")
  case (Ordinary p)
  from dp show ?thesis unfolding dispatch_ordinary [OF reg Ordinary] by (auto split: if_splits)
next
  case (ArrayK n)
  from dp show ?thesis unfolding dispatch_array [OF reg ArrayK] by auto
next
  case (MapK es)
  from dp show ?thesis unfolding dispatch_map [OF reg MapK] by auto
next
  case (SetK ms)
  from dp show ?thesis unfolding dispatch_set [OF reg SetK] by auto
qed (use dispatch_other [OF reg, of h a] dp in auto)

lemma handleCopy_mirrors:
  assumes wf: "wf_heap h0" and reg: "regular s h0"
  shows "handleCopy s fuel v h cache = Some (Inr (r, h', c'))
    \<Longrightarrow> originals h0 h \<Longrightarrow> known h0 h v \<Longrightarrow> cloned s fuel h0 h cache v r h' c'"
proof (induction fuel arbitrary: v h cache r h' c' rule: less_induct)
  case (less fuel)
  note hc = less.prems(1) and orig = less.prems(2) and kn = less.prems(3)
  have n0: "length h0 \<le> length h" using orig by (simp add: originals_def)
  show ?case
  proof (cases v)
    case (Ref a)
    show ?thesis
    proof (cases "a \<in> cache")
      case True
      with Ref hc have e: "r = Ref a" "h' = h" "c' = cache"
        by (auto simp: handleCopy.simps)
      from True show ?thesis unfolding e Ref by (rule cloned_cached)
    next
      case False
      show ?thesis
      proof (cases "lookup h a")
        case None
        with Ref False hc show ?thesis by (simp add: handleCopy.simps)
      next
        case (Some ob)
        then have "a < length h" by (simp add: lookup_def split: if_splits)
        with kn Ref have a: "a < length h0" by (auto simp: known_def)
        with orig Some have ob: "ob = h0 ! a" by (simp add: originals_lookup)
        have ro: "regular_obj s ob" unfolding ob using reg a by (rule regular_nth)
        have lk0: "lookup h0 a = Some ob" using a ob by (simp add: lookup_def)
        show ?thesis
        proof (cases "dispatch s h a ob")
          case (Inl e)
          with Ref False Some hc show ?thesis by (simp add: handleCopy.simps)
        next
          case (Inr p)
          then have pk: "plan_ok h a ob p" by (rule dispatch_plan_ok)
          show ?thesis
          proof (cases p)
            case (Return r0)
            with pk have "r0 = Ref a" by (simp add: plan_ok_def)
            with Return Ref False Some Inr hc have e: "r = Ref a" "h' = h" "c' = cache"
              by (simp_all add: handleCopy.simps)
            from Inr Return have "not_to_be_cloned ob \<and> \<not> cloned_before_guard ob"
              by (auto dest: dispatch_Return)
            with a ob have "passed h0 a" by (simp add: passed_def)
            then show ?thesis unfolding e Ref by (rule cloned_passed)
          next
            case (Build c h1 b)
            with Ref False Some Inr hc have r: "r = Ref c" and h': "h' = h1"
              and c': "c' = (if b then insert a cache else cache)"
              by (simp_all add: handleCopy.simps)
            let ?M = "{(c, a)}"
            from dispatch_build_equal [OF ro, of h a c h1 b "share ?M {} h0" h1] Inr Build
            obtain x where c: "c = length h" and h1: "h1 = h @ [x]"
              and e: "obj_equal (share ?M {} h0) h1 x ob" by auto
            have "mirror1 ?M {} h0 h h1 c a"
              using c h1 e a ob by (simp add: mirror1_def)
            then have m: "mirrored ?M {} h0 h h1" by (simp add: mirrored_def)
            have rl: "share ?M {} h0 (Ref c) (Ref a)" by (simp add: share_def)
            have cs: "c' \<subseteq> cache \<union> snd ` ?M" using c' by auto
            have q: "quiet s fuel h0 cache [Ref a] {} c'"
              by (rule quiet_leaf) (use c' in auto)
            from m rl cs q
            have "\<exists>M H. mirrored M H h0 h h1 \<and> share M H h0 (Ref c) (Ref a) \<and> H \<subseteq> c'
                \<and> c' \<subseteq> cache \<union> snd ` M \<and> quiet s fuel h0 cache [Ref a] H c'"
              by (intro exI [of _ ?M] exI [of _ "{}"]) simp
            moreover have "made h h1 (Ref c)" using c h1 by (simp add: made_def)
            moreover have "\<forall>x<length h. h1 ! x = h ! x" using h1 by (simp add: nth_append)
            moreover have "cache \<subseteq> c'" using c' by auto
            ultimately show ?thesis using r h' h1 Ref by (simp add: cloned_def)
          next
            case (Descend cl h1 its)
            with pk have g: "grows h cl h1" and ok: "items_ok (h0 ! a) its"
              using ob by (simp_all add: plan_ok_def)
            from Descend Ref False Some Inr hc obtain fuel' where
              fuel: "fuel = Suc fuel'"
              and ci: "copy_items s fuel' a cl its h1 (insert a cache) = Some (Inr (h', c'))"
              and r: "r = Ref cl"
              by (auto simp: handleCopy.simps split: nat.splits option.splits sum.splits)
            from orig g have o1: "originals h0 h1" by (rule originals_grows)
            from g have clb: "length h \<le> cl" "cl < length h1" and l1: "length h \<le> length h1"
              and f1: "take (length h) h1 = h"
              by (auto simp: grows_def)
            from clb n0 have cl0: "length h0 \<le> cl" by simp
            have H: "handleCopy s fuel' v h cache = Some (Inr (r, h', c'))
                \<Longrightarrow> originals h0 h \<Longrightarrow> known h0 h v \<Longrightarrow> cloned s fuel' h0 h cache v r h' c'"
              for v h cache r h' c'
              using less.IH [of fuel'] fuel by blast
            from copy_items_looped [OF H wf reg a cl0 ci ok o1 clb(2)]
            have lp: "looped s fuel' h0 h1 (insert a cache) cl (reads ob its) h' c'"
              unfolding ob by simp
            then have l2: "length h1 \<le> length h'"
              and f2: "\<forall>x<length h1. x \<noteq> cl \<longrightarrow> h' ! x = h1 ! x"
              and k2: "insert a cache \<subseteq> c'"
              and ex2: "\<exists>M H rs. mirrored M H h0 h1 h'
                \<and> list_all2 (\<lambda>r ch. share M H h0 r ch \<and> (r = ch \<or> made h1 h' r)) rs
                    (map fst (reads ob its))
                \<and> distinct (filter (newer h1) rs)
                \<and> writes (h1 ! cl) (zip (map snd (reads ob its)) rs) = Inr (h' ! cl)
                \<and> H \<subseteq> c' \<and> c' \<subseteq> insert a cache \<union> snd ` M
                \<and> quiet s fuel' h0 (insert a cache) (map fst (reads ob its)) H c'"
              by (simp_all add: looped_def)
            from ex2 obtain M H rs where m2: "mirrored M H h0 h1 h'"
              and la: "list_all2 (\<lambda>r ch. share M H h0 r ch \<and> (r = ch \<or> made h1 h' r)) rs
                  (map fst (reads ob its))"
              and df: "distinct (filter (newer h1) rs)"
              and w: "writes (h1 ! cl) (zip (map snd (reads ob its)) rs) = Inr (h' ! cl)"
              and hs: "H \<subseteq> c'" and cs: "c' \<subseteq> insert a cache \<union> snd ` M"
              and q2: "quiet s fuel' h0 (insert a cache) (map fst (reads ob its)) H c'"
              by blast
            let ?M = "insert (cl, a) M"
            from Inr Descend have dp: "dispatch s h a ob = Inr (Descend cl h1 its)" by simp
            from descend_shape [OF ro dp] have its: "its = plan_items s ob" by simp
            have la': "list_all2 (share ?M H h0) rs (map fst (reads ob its))"
              using la
            proof (rule list_all2_mono)
              fix r' ch assume "share M H h0 r' ch \<and> (r' = ch \<or> made h1 h' r')"
              then have "share M H h0 r' ch" ..
              then show "share ?M H h0 r' ch" by (rule share_mono [rotated 2]) auto
            qed
            have ag: "agree rs (reads ob its)"
            proof -
              have "list_all2 (\<lambda>r cw. (\<forall>a. fst cw \<noteq> Ref a) \<longrightarrow> r = fst cw) rs (reads ob its)"
                using la' unfolding list_all2_map2
                by (rule list_all2_mono) (auto dest: share_prim)
              then show ?thesis by (simp add: agree_def)
            qed
            have ds: "(\<exists>ms. kind ob = SetK ms) \<longrightarrow> distinct rs"
            proof
              assume "\<exists>ms. kind ob = SetK ms"
              then obtain ms where k: "kind ob = SetK ms" ..
              with its have its': "its = map Member ms" by (simp add: plan_items_def)
              from ro k have dm: "distinct ms" by (simp add: regular_obj_def)
              have chs: "map fst (reads ob its) = ms"
                unfolding its' reads_Member by (simp add: comp_def)
              have cc: "\<forall>ch \<in> set (map fst (reads ob its)). closed_val (length h0) ch"
                using reads_closed [OF wf a ok] ob by simp
              from o1 have "length h0 \<le> length h1" by (simp add: originals_def)
              from results_distinct [OF la _ cc this df] dm chs show "distinct rs" by simp
            qed
            have ru: "share ?M H h0 Undefined Undefined" by (rule share_same) simp
            from descend_writes [OF ro dp ag, of "share ?M H h0" h'] w la' ru ds
            have e: "obj_equal (share ?M H h0) h' (h' ! cl) ob" by auto
            have mt: "mirrored ?M H h0 h h'"
              unfolding mirrored_def
            proof (intro ballI, clarify)
              fix c sa assume "(c, sa) \<in> ?M"
              then show "mirror1 ?M H h0 h h' c sa"
              proof
                assume "(c, sa) = (cl, a)"
                with e clb l2 a ob show ?thesis by (simp add: mirror1_def)
              next
                assume "(c, sa) \<in> M"
                with m2 have m: "mirror1 M H h0 h1 h' c sa" by (auto simp: mirrored_def)
                have sub: "M \<subseteq> ?M" by auto
                show ?thesis by (rule mirror1_keep [OF m sub order_refl reg l1 order_refl refl])
              qed
            qed
            have rl: "share ?M H h0 (Ref cl) (Ref a)" by (simp add: share_def)
            have cs': "c' \<subseteq> cache \<union> snd ` ?M" using cs by auto
            have q: "quiet s fuel h0 cache [Ref a] H c'"
              unfolding fuel using lk0 q2 unfolding its by (rule quiet_descend)
            from mt rl hs cs' q
            have ex: "\<exists>M H. mirrored M H h0 h h' \<and> share M H h0 (Ref cl) (Ref a) \<and> H \<subseteq> c'
                \<and> c' \<subseteq> cache \<union> snd ` M \<and> quiet s fuel h0 cache [Ref a] H c'"
              by blast
            have md: "made h h' (Ref cl)" using clb l2 by (simp add: made_def)
            have fr: "\<forall>x<length h. h' ! x = h ! x"
            proof (intro allI impI)
              fix x assume x: "x < length h"
              with clb l1 f2 have "h' ! x = h1 ! x" by simp
              also from x f1 have "h1 ! x = h ! x" by (metis nth_take)
              finally show "h' ! x = h ! x" .
            qed
            have kk: "cache \<subseteq> c'" using k2 by auto
            from ex md fr l1 l2 kk r Ref show ?thesis by (simp add: cloned_def)
          qed
        qed
      qed
    qed
  qed (use hc in \<open>auto simp: handleCopy.simps intro: cloned_prim\<close>)
qed

section \<open>On regular heaps the clone engine does not raise\<close>






section \<open>What \<open>copy\<close> returns\<close>

lemma cloned_deepEqual:
  assumes c: "cloned s fuel h h cache v r h' c'"
  shows "deepEqual h' r v"
proof -
  from c have l: "length h \<le> length h'" and f: "\<forall>a<length h. h' ! a = h ! a"
    and ex: "\<exists>M H. mirrored M H h h h' \<and> share M H h r v \<and> H \<subseteq> c'
        \<and> c' \<subseteq> cache \<union> snd ` M \<and> quiet s fuel h cache [v] H c'"
    by (simp_all add: cloned_def)
  from ex obtain M H where m: "mirrored M H h h h'" and r: "share M H h r v" by blast
  have "val_equal (share M H h) h' x y" if "share M H h x y" for x y
  proof -
    from that consider "x = y" | c sa where "(c, sa) \<in> M" "x = Ref c" "y = Ref sa"
      by (auto simp: share_def)
    then show ?thesis
    proof cases
      case 1
      then show ?thesis by (cases y) (simp_all add: val_equal_def)
    next
      case 2
      with m have m1: "mirror1 M H h h h' c sa" by (auto simp: mirrored_def)
      then have "c < length h'" "sa < length h"
        and e: "obj_equal (share M H h) h' (h' ! c) (h ! sa)"
        by (simp_all add: mirror1_def)
      with l f have "lookup h' c = Some (h' ! c)" "lookup h' sa = Some (h ! sa)"
        by (simp_all add: lookup_def)
      with e 2 show ?thesis by (simp add: val_equal_def)
    qed
  qed
  with r show ?thesis unfolding deepEqual_def by blast
qed

lemma copy_deepEqual:
  assumes wf: "wf_heap h" and reg: "regular s h" and c: "copy h v s = Some (Inr (r, h'))"
  shows "deepEqual h' r v"
proof -
  from c obtain c' where hc: "handleCopy s (length h) v h {} = Some (Inr (r, h', c'))"
    by (auto simp: copy_def split: option.splits sum.splits)
  have "originals h h" by (simp add: originals_def)
  moreover have "known h h v" by (auto simp: known_def)
  ultimately have "cloned s (length h) h h {} v r h' c'"
    by (rule handleCopy_mirrors [OF wf reg hc])
  then show ?thesis by (rule cloned_deepEqual)
qed










section \<open>A run of one repeated value\<close>

text \<open>
  With the default comparator and no key-selector, a value delivered again and again to
  a new subscriber on a regular heap is emitted once, provided \<open>copy\<close> clones it: the
  retained clone is deep-equal to the value, so every later delivery is a duplicate.
\<close>

lemma duplicates_dropped:
  "deepEqual (store s) (key s) v \<Longrightarrow> hasKey s
   \<Longrightarrow> \<exists>log. deliver (compare_of None) None (replicate n v) s
      = (s\<lparr>compared := compared s @ log\<rparr>, Returned)"
proof (induction n arbitrary: s)
  case 0
  show ?case by (rule exI [of _ "[]"]) simp
next
  case (Suc n)
  let ?s1 = "s\<lparr>compared := compared s @ [(key s, v)]\<rparr>"
  from Suc.prems have st: "p_next (compare_of None) None v s = (?s1, Returned)"
    by (simp add: p_next_def extract_key_def compare_of_def compare_default_def forward_def)
  from Suc.prems have "deepEqual (store ?s1) (key ?s1) v" "hasKey ?s1" by simp_all
  from Suc.IH [OF this] obtain log where
    "deliver (compare_of None) None (replicate n v) ?s1
      = (?s1\<lparr>compared := compared ?s1 @ log\<rparr>, Returned)" ..
  with st have "deliver (compare_of None) None (replicate (Suc n) v) s
      = (s\<lparr>compared := compared s @ ((key s, v) # log)\<rparr>, Returned)"
    by simp
  then show ?case ..
qed

lemma repeated_value_emitted_once:
  assumes wf: "wf_heap h" and reg: "regular False h"
    and c: "copy h v False = Some (Inr (k, h1))"
  shows "emitted (deliver (compare_of None) None (replicate (Suc n) v) (subscribe h)) = [Next v]"
proof -
  let ?s1 = "\<lparr>store = h1, key = k, hasKey = True,
    destination = \<lparr>isStopped = False, received = [Next v]\<rparr>, compared = []\<rparr>"
  from c have st: "p_next (compare_of None) None v (subscribe h) = (?s1, Returned)"
    by (simp add: p_next_def extract_key_def forward_def subscribe_def dest_next_def)
  from wf reg c have "deepEqual h1 k v" by (rule copy_deepEqual)
  then have "deepEqual (store ?s1) (key ?s1) v" "hasKey ?s1" by simp_all
  from duplicates_dropped [OF this, of n] obtain log where
    "deliver (compare_of None) None (replicate n v) ?s1
      = (?s1\<lparr>compared := compared ?s1 @ log\<rparr>, Returned)" ..
  with st show ?thesis by (simp add: emitted_def)
qed

lemma copy_offset_view:
  "copy offset_view_heap (Ref 1) False = Some (Inr (Ref 3, offset_view_copied))"
  unfolding offset_view_heap_def offset_view_copied_def by code_simp

lemma copy_offset_view_again:
  "copy offset_view_copied (Ref 1) False = Some (Inr (Ref 5, offset_view_copied
     @ [empty_obj (BufferK [0, 1, 2, 3]), empty_obj (ViewK (TypedArray 0 1) 4 0 4)]))"
  unfolding offset_view_heap_def offset_view_copied_def by code_simp

lemma offset_view_unequal: "\<not> deepEqual offset_view_copied (Ref 3) (Ref 1)"
proof
  assume "deepEqual offset_view_copied (Ref 3) (Ref 1)"
  then obtain R where "R (Ref 3) (Ref 1)" and "\<forall>x y. R x y \<longrightarrow> val_equal R offset_view_copied x y"
    by (auto simp: deepEqual_def)
  then have "val_equal R offset_view_copied (Ref 3) (Ref 1)" by blast
  then show False
    by (simp add: val_equal_def lookup_def offset_view_copied_def offset_view_heap_def
        obj_equal_def empty_obj_def)
qed

text \<open>
  C6 fails on the code for a view that does not cover its buffer. \<open>copy\<close> builds the
  clone of a view from a copy of the whole buffer, without the offset and the length of
  the view, so the retained key has four bytes where the value has two; the default
  comparator finds them different, and the second delivery of the same value is emitted
  again.
\<close>

theorem offset_view_emitted_twice:
  "emitted (deliver (compare_of None) None [Ref 1, Ref 1] (subscribe offset_view_heap))
     = [Next (Ref 1), Next (Ref 1)]"
  using copy_offset_view copy_offset_view_again offset_view_unequal
  by (simp add: emitted_def subscribe_def p_next_def extract_key_def forward_def
      compare_of_def compare_default_def dest_next_def)

end
